theory Spec2Isabelle
  imports Complex_Main "HOL-Library.Sublist" "HOL-Library.Multiset"
begin

section \<open>Jllama: batched decoding and nucleus sampling (Jllama/generation.py)\<close>

text \<open>
  The development embeds \<^verbatim>\<open>sample_top_p\<close> and \<^verbatim>\<open>Llama.generate\<close>.
  Token ids are Python integers (\<open>int\<close>), reduced to 32 bits where the source stores
  them in its \<^verbatim>\<open>int32\<close> buffer; buffers are lists of rows. Probabilities,
  the temperature and log-probabilities are floating-point numbers in the source and are
  taken here as exact rationals, so the theorems speak about the algorithm in exact
  arithmetic. \<^verbatim>\<open>max_gen_len\<close> is a length and \<^verbatim>\<open>max_seq_len\<close>,
  \<^verbatim>\<open>max_batch_size\<close> are sizes: natural numbers.
\<close>

subsection \<open>Python list helpers\<close>

text \<open>\<^verbatim>\<open>xs[start:stop]\<close> for non-negative bounds.\<close>

definition py_slice :: "'a list \<Rightarrow> nat \<Rightarrow> nat \<Rightarrow> 'a list" where
  "py_slice xs start stop = drop start (take stop xs)"

text \<open>\<^verbatim>\<open>xs.index(v)\<close>; the \<^verbatim>\<open>ValueError\<close> of an absent value is \<open>None\<close>.\<close>

fun list_index :: "'a list \<Rightarrow> 'a \<Rightarrow> nat option" where
  "list_index [] v = None"
| "list_index (x # xs) v = (if x = v then Some 0 else map_option Suc (list_index xs v))"

subsection \<open>Tensor helpers\<close>

text \<open>\<^verbatim>\<open>m[:, j]\<close>\<close>

definition column :: "'a list list \<Rightarrow> nat \<Rightarrow> 'a list" where
  "column m j = map (\<lambda>row. row ! j) m"

text \<open>\<^verbatim>\<open>m[:, j] = v\<close>\<close>

definition set_column :: "'a list list \<Rightarrow> nat \<Rightarrow> 'a list \<Rightarrow> 'a list list" where
  "set_column m j v = map (\<lambda>i. (m ! i)[j := v ! i]) [0..<length m]"

text \<open>\<^verbatim>\<open>jt.where(cond, xs, ys)\<close> on vectors.\<close>

definition jt_where :: "bool list \<Rightarrow> 'a list \<Rightarrow> 'a list \<Rightarrow> 'a list" where
  "jt_where cond xs ys = map (\<lambda>i. if cond ! i then xs ! i else ys ! i) [0..<length cond]"

text \<open>\<^verbatim>\<open>jt.isin(xs, test)\<close>\<close>

definition isin :: "'a list \<Rightarrow> 'a list \<Rightarrow> bool list" where
  "isin xs test = map (\<lambda>x. x \<in> set test) xs"

text \<open>\<^verbatim>\<open>jt.cumsum\<close> along a row.\<close>

fun cumsum_from :: "rat \<Rightarrow> rat list \<Rightarrow> rat list" where
  "cumsum_from acc [] = []"
| "cumsum_from acc (x # xs) = (acc + x) # cumsum_from (acc + x) xs"

definition cumsum :: "rat list \<Rightarrow> rat list" where
  "cumsum xs = cumsum_from 0 xs"

text \<open>
  \<^verbatim>\<open>jt.sort(probs, dim=-1, descending=True)\<close> on one row: the sorted values and,
  for each sorted position, the index it came from. Equal entries keep the order of their
  indices.
\<close>

definition sort_desc :: "rat list \<Rightarrow> rat list \<times> nat list" where
  "sort_desc probs =
     (let ps = sort_key (\<lambda>ix. - snd ix) (zip [0..<length probs] probs)
      in (map snd ps, map fst ps))"

text \<open>
  \<^verbatim>\<open>jt.multinomial(weights, num_samples=1, replacement=True)\<close> on one row, with the
  uniform variate \<open>u\<close> of \<open>[0, 1)\<close> it draws made explicit: the variate is scaled by the
  row total and the index whose cumulative interval \<open>(c\<^sub>i\<^sub>-\<^sub>1, c\<^sub>i]\<close> holds it is returned
  (index 0 when no interval does).
\<close>

fun draw_from :: "rat \<Rightarrow> rat \<Rightarrow> nat \<Rightarrow> rat list \<Rightarrow> nat" where
  "draw_from r acc i [] = 0"
| "draw_from r acc i (w # ws) =
     (if acc < r \<and> r \<le> acc + w then i else draw_from r (acc + w) (Suc i) ws)"

definition multinomial :: "rat \<Rightarrow> rat list \<Rightarrow> nat" where
  "multinomial u weights = draw_from (u * sum_list weights) 0 0 weights"

subsection \<open>Nucleus sampler: \<^verbatim>\<open>sample_top_p\<close>\<close>

text \<open>\<^verbatim>\<open>mask = probs_sum - probs_sort > p\<close>\<close>

definition top_p_mask :: "rat list \<Rightarrow> rat \<Rightarrow> bool list" where
  "top_p_mask probs_sort p =
     map (\<lambda>sx. fst sx - snd sx > p) (zip (cumsum probs_sort) probs_sort)"

text \<open>\<^verbatim>\<open>probs_sort[mask] = 0.0\<close>\<close>

definition masked_fill :: "rat list \<Rightarrow> bool list \<Rightarrow> rat list" where
  "masked_fill probs_sort msk = map (\<lambda>xm. if snd xm then 0 else fst xm) (zip probs_sort msk)"

text \<open>\<^verbatim>\<open>xs.divide(d)\<close>: a new vector; the receiver is not changed.\<close>

definition divide :: "rat list \<Rightarrow> rat \<Rightarrow> rat list" where
  "divide xs d = map (\<lambda>x. x / d) xs"

text \<open>
  The vector handed to \<^verbatim>\<open>jt.multinomial\<close>. Line 325 computes the quotient by the row
  sum with \<^verbatim>\<open>divide\<close> and drops the result, so \<^verbatim>\<open>probs_sort\<close> is still the masked
  vector when it is sampled.
\<close>

definition top_p_weights :: "rat list \<Rightarrow> rat \<Rightarrow> rat list" where
  "top_p_weights probs p =
     (let (probs_sort, probs_idx) = sort_desc probs;
          probs_sum = cumsum probs_sort;
          msk = top_p_mask probs_sort p;
          probs_sort = masked_fill probs_sort msk;
          dropped = divide probs_sort (sum_list probs_sort)
      in probs_sort)"

definition sample_top_p_row :: "rat \<Rightarrow> rat list \<Rightarrow> rat \<Rightarrow> nat" where
  "sample_top_p_row u probs p =
     (let (probs_sort, probs_idx) = sort_desc probs;
          next_token = multinomial u (top_p_weights probs p)
      in probs_idx ! next_token)"

text \<open>The batch: one row of probabilities and one variate per sequence.\<close>

definition sample_top_p :: "rat list \<Rightarrow> rat list list \<Rightarrow> rat \<Rightarrow> nat list" where
  "sample_top_p us probs p =
     map (\<lambda>i. sample_top_p_row (us ! i) (probs ! i) p) [0..<length probs]"

text \<open>
  The kept set in the words of the specification: the length of the smallest sorted prefix
  whose cumulative probability reaches or exceeds \<open>p\<close> (the whole row when none does).
\<close>

fun spec_prefix_reaching :: "rat \<Rightarrow> rat \<Rightarrow> rat list \<Rightarrow> nat" where
  "spec_prefix_reaching p acc [] = 0"
| "spec_prefix_reaching p acc (x # xs) =
     (if acc + x \<ge> p then 1 else Suc (spec_prefix_reaching p (acc + x) xs))"

text \<open>
  The kept set in the words of the source's docstring: the smallest sorted prefix whose
  cumulative probability exceeds \<open>p\<close> (the whole row when none does).
\<close>

fun prefix_exceeding :: "rat \<Rightarrow> rat \<Rightarrow> rat list \<Rightarrow> nat" where
  "prefix_exceeding p acc [] = 0"
| "prefix_exceeding p acc (x # xs) =
     (if acc + x > p then 1 else Suc (prefix_exceeding p (acc + x) xs))"

text \<open>
  The masked row when the scan starts with running sum \<open>acc\<close>; the sampler's masked
  vector is the case \<open>acc = 0\<close>.
\<close>

definition weights_from :: "rat \<Rightarrow> rat \<Rightarrow> rat list \<Rightarrow> rat list" where
  "weights_from p acc xs =
     masked_fill xs (map (\<lambda>sx. fst sx - snd sx > p) (zip (cumsum_from acc xs) xs))"

subsection \<open>Collaborators and the request\<close>

text \<open>
  \<^verbatim>\<open>AttributeError\<close> is what the two library calls that Jittor does not offer raise:
  \<^verbatim>\<open>jt.argmax\<close> returns a pair (index, value), so \<^verbatim>\<open>next_token.reshape(-1)\<close> on line 152
  fails in the greedy branch, and \<^verbatim>\<open>jt.nn\<close> has no \<^verbatim>\<open>cross_entropy\<close> (lines 138 and 160).
\<close>

datatype error = AssertionError | ValueError | AttributeError

text \<open>
  The model and the tokenizer are consumed through their interfaces. The model keeps its
  own incremental state \<open>'ms\<close>, threaded through \<^verbatim>\<open>execute\<close>; \<open>'lg\<close> is the logits tensor.
  \<^verbatim>\<open>softmax_last lg t\<close> is \<^verbatim>\<open>softmax(logits[:, -1] / t)\<close> and \<^verbatim>\<open>rand col\<close> the uniform
  variates (one per row) that the draw at column \<open>col\<close> consumes.
\<close>

record ('ms, 'lg) collab =
  max_seq_len :: nat
  max_batch_size :: nat
  pad_id :: int
  stop_tokens :: "int list"
  execute :: "'ms \<Rightarrow> int list list \<Rightarrow> nat \<Rightarrow> 'lg \<times> 'ms"
  softmax_last :: "'lg \<Rightarrow> rat \<Rightarrow> rat list list"
  rand :: "nat \<Rightarrow> rat list"

record request =
  prompt_tokens :: "int list list"
  max_gen_len :: nat
  temperature :: rat
  top_p :: rat
  logprobs :: bool
  echo :: bool

subsection \<open>Sequence batch state\<close>

text \<open>
  The token buffer has dtype \<^verbatim>\<open>jt.int32\<close>: a value stored in it is reduced to the signed
  32-bit range, as are the index tensors of the sampler.
\<close>

definition int32 :: "int \<Rightarrow> int" where
  "int32 x = (x + 2147483648) mod 4294967296 - 2147483648"

definition in_int32 :: "int \<Rightarrow> bool" where
  "in_int32 x \<longleftrightarrow> - 2147483648 \<le> x \<and> x < 2147483648"

text \<open>
  The local variables of \<^verbatim>\<open>generate\<close> that live across the loop; \<open>calls\<close> logs the
  arguments of every \<^verbatim>\<open>model.execute\<close> made so far and \<open>failed\<close> holds the exception
  that has been raised, if any. The log-probability buffer is allocated by the source only
  when it is requested, and read only then.
\<close>

record 'ms state =
  tokens :: "int list list"
  token_logprobs :: "rat list list"
  input_text_mask :: "bool list list"
  eos_reached :: "bool list"
  prev_pos :: nat
  mstate :: 'ms
  calls :: "(int list list \<times> nat) list"
  failed :: "error option"

text \<open>
  \<^verbatim>\<open>jt.full((bsz, total_len), pad_id, dtype=jt.int32)\<close> with each row's prefix set to its
  prompt.
\<close>

definition init_tokens :: "int \<Rightarrow> nat \<Rightarrow> int list list \<Rightarrow> int list list" where
  "init_tokens pad total_len prompts =
     map (\<lambda>t. map int32 t @ drop (length t) (replicate total_len (int32 pad))) prompts"

definition total_len_of :: "('ms, 'lg) collab \<Rightarrow> request \<Rightarrow> nat" where
  "total_len_of c r =
     min (max_seq_len c) (max_gen_len r + Max (set (map length (prompt_tokens r))))"

definition min_prompt_len_of :: "request \<Rightarrow> nat" where
  "min_prompt_len_of r = Min (set (map length (prompt_tokens r)))"

text \<open>
  The mask \<^verbatim>\<open>tokens != pad_id\<close> compares the buffer with the pad id in the buffer's
  dtype.
\<close>

definition init_state :: "('ms, 'lg) collab \<Rightarrow> 'ms \<Rightarrow> request \<Rightarrow> 'ms state" where
  "init_state c ms r =
     (let toks = init_tokens (pad_id c) (total_len_of c r) (prompt_tokens r)
      in \<lparr> tokens = toks,
           token_logprobs = map (map (\<lambda>_. 0)) toks,
           input_text_mask = map (map (\<lambda>x. x \<noteq> int32 (pad_id c))) toks,
           eos_reached = replicate (length (prompt_tokens r)) False,
           prev_pos = 0,
           mstate = ms,
           calls = [],
           failed = None \<rparr>)"

subsection \<open>Decode loop\<close>

text \<open>
  The priming pass taken when \<^verbatim>\<open>min_prompt_len == total_len\<close> (lines 136 to 143): the
  model is called on the whole buffer, then the lookup of \<^verbatim>\<open>jt.nn.cross_entropy\<close> raises.
\<close>

definition prime :: "('ms, 'lg) collab \<Rightarrow> 'ms state \<Rightarrow> 'ms state" where
  "prime c s =
     (let (logits, ms') = execute c (mstate s) (tokens s) (prev_pos s)
      in s\<lparr> mstate := ms',
             calls := calls s @ [(tokens s, prev_pos s)],
             failed := Some AttributeError \<rparr>)"

text \<open>The tokens \<^verbatim>\<open>sample_top_p\<close> draws from the logits of a step, one per row.\<close>

definition sampled :: "('ms, 'lg) collab \<Rightarrow> request \<Rightarrow> nat \<Rightarrow> 'lg \<Rightarrow> int list" where
  "sampled c r cur_pos logits =
     map (\<lambda>k. int32 (int k))
       (sample_top_p (rand c cur_pos) (softmax_last c logits (temperature r)) (top_p r))"

text \<open>
  Lines 147 to 152: the candidate tokens of a step are sampled when the temperature is
  positive; the greedy branch raises.
\<close>

definition propose :: "('ms, 'lg) collab \<Rightarrow> request \<Rightarrow> nat \<Rightarrow> 'lg \<Rightarrow> error + int list" where
  "propose c r cur_pos logits =
     (if temperature r > 0 then Inr (sampled c r cur_pos logits) else Inl AttributeError)"

text \<open>The span \<^verbatim>\<open>tokens[:, prev_pos:cur_pos]\<close> fed to the model.\<close>

definition span_of :: "'ms state \<Rightarrow> nat \<Rightarrow> int list list" where
  "span_of s cur_pos = map (\<lambda>row. py_slice row (prev_pos s) cur_pos) (tokens s)"

text \<open>The tokens the model and the sampler produce for column \<open>cur_pos\<close> in state \<open>s\<close>.\<close>

definition candidates :: "('ms, 'lg) collab \<Rightarrow> request \<Rightarrow> nat \<Rightarrow> 'ms state \<Rightarrow> int list" where
  "candidates c r cur_pos s =
     sampled c r cur_pos (fst (execute c (mstate s) (span_of s cur_pos) (prev_pos s)))"

text \<open>
  One iteration of the loop body (lines 146 to 167). The model is called first; the greedy
  branch raises before anything is written; with \<^verbatim>\<open>logprobs\<close> the tokens are written
  (line 158) and line 160 raises before the stop-mask and the cursor are updated.
\<close>

definition decode_step :: "('ms, 'lg) collab \<Rightarrow> request \<Rightarrow> nat \<Rightarrow> 'ms state \<Rightarrow> 'ms state" where
  "decode_step c r cur_pos s =
     (let (logits, ms') = execute c (mstate s) (span_of s cur_pos) (prev_pos s);
          called = s\<lparr> mstate := ms', calls := calls s @ [(span_of s cur_pos, prev_pos s)] \<rparr>
      in case propose c r cur_pos logits of
           Inl e \<Rightarrow> called\<lparr> failed := Some e \<rparr>
         | Inr next_token \<Rightarrow>
             (let next_token = jt_where (column (input_text_mask s) cur_pos)
                                        (column (tokens s) cur_pos) next_token;
                  written = called\<lparr> tokens := set_column (tokens s) cur_pos next_token \<rparr>;
                  eos = map (\<lambda>i. eos_reached s ! i \<or>
                                   (\<not> column (input_text_mask s) cur_pos ! i \<and>
                                    isin next_token (stop_tokens c) ! i))
                            [0..<length (eos_reached s)]
              in if logprobs r then written\<lparr> failed := Some AttributeError \<rparr>
                 else written\<lparr> eos_reached := eos, prev_pos := cur_pos \<rparr>))"

text \<open>
  \<^verbatim>\<open>for cur_pos in range(min_prompt_len, total_len)\<close> with its
  \<^verbatim>\<open>if all(eos_reached): break\<close>, over the list of columns still to visit; an
  exception ends the loop.
\<close>

fun decode_loop :: "('ms, 'lg) collab \<Rightarrow> request \<Rightarrow> nat list \<Rightarrow> 'ms state \<Rightarrow> 'ms state" where
  "decode_loop c r [] s = s"
| "decode_loop c r (cur_pos # rest) s =
     (let s' = decode_step c r cur_pos s
      in if failed s' \<noteq> None then s'
         else if list_all (\<lambda>b. b) (eos_reached s') then s'
         else decode_loop c r rest s')"

text \<open>The state when the loop ends or an exception leaves it (lines 123 to 169).\<close>

definition decode :: "('ms, 'lg) collab \<Rightarrow> 'ms \<Rightarrow> request \<Rightarrow> 'ms state" where
  "decode c ms r =
     (let min_prompt_len = min_prompt_len_of r;
          total_len = total_len_of c r;
          s = init_state c ms r;
          s = (if min_prompt_len = total_len then prime c s else s)
      in if failed s \<noteq> None then s
         else decode_loop c r [min_prompt_len..<total_len] s)"

text \<open>
  The shapes the buffers share: the mask and the stop-mask have one entry per row of the
  token buffer.
\<close>

definition wf_state :: "'ms state \<Rightarrow> bool" where
  "wf_state s \<longleftrightarrow>
     length (input_text_mask s) = length (tokens s) \<and>
     length (eos_reached s) = length (tokens s)"

text \<open>The state in which the loop is entered.\<close>

definition start_state :: "('ms, 'lg) collab \<Rightarrow> 'ms \<Rightarrow> request \<Rightarrow> 'ms state" where
  "start_state c ms r =
     (if min_prompt_len_of r = total_len_of c r
      then prime c (init_state c ms r) else init_state c ms r)"

subsection \<open>Post-processing\<close>

text \<open>
  The loop over the stop tokens (lines 181 to 187). The tokenizer's stop tokens are a set;
  the list is the order in which it is iterated.
\<close>

fun cut_at_stops :: "int list \<Rightarrow> rat list option \<Rightarrow> int list \<Rightarrow> int list \<times> rat list option" where
  "cut_at_stops toks probs [] = (toks, probs)"
| "cut_at_stops toks probs (stop_token # rest) =
     (case list_index toks stop_token of
        Some eos_idx \<Rightarrow> cut_at_stops (take eos_idx toks) (map_option (take eos_idx) probs) rest
      | None \<Rightarrow> cut_at_stops toks probs rest)"

text \<open>The body of the loop over the rows (lines 174 to 189).\<close>

definition trim_row ::
  "int list \<Rightarrow> request \<Rightarrow> int list \<Rightarrow> int list \<Rightarrow> rat list \<Rightarrow> int list \<times> rat list option" where
  "trim_row stops r prompt toks lps =
     (let start = (if echo r then 0 else length prompt);
          toks = py_slice toks start (length prompt + max_gen_len r);
          probs = (if logprobs r
                   then Some (py_slice lps start (length prompt + max_gen_len r))
                   else None)
      in cut_at_stops toks probs stops)"

definition post_process ::
  "int list \<Rightarrow> request \<Rightarrow> 'ms state \<Rightarrow> int list list \<times> rat list option list option" where
  "post_process stops r s =
     (let rows = map (\<lambda>i. trim_row stops r (prompt_tokens r ! i) (tokens s ! i)
                                    (token_logprobs s ! i))
                     [0..<length (tokens s)]
      in (map fst rows, if logprobs r then Some (map snd rows) else None))"

text \<open>
  The truncation in the words of the specification: scan for the first position that holds
  any stop token, and cut both slices there when there is one.
\<close>

fun spec_first_stop :: "int list \<Rightarrow> int list \<Rightarrow> nat option" where
  "spec_first_stop stops [] = None"
| "spec_first_stop stops (t # ts) =
     (if t \<in> set stops then Some 0 else map_option Suc (spec_first_stop stops ts))"

text \<open>
  The same position as the least of the first-occurrence indices of the single stop tokens.
\<close>

fun spec_min_index :: "int list \<Rightarrow> int list \<Rightarrow> nat option" where
  "spec_min_index toks [] = None"
| "spec_min_index toks (stop_token # rest) =
     (case (list_index toks stop_token, spec_min_index toks rest) of
        (None, other) \<Rightarrow> other
      | (Some k, None) \<Rightarrow> Some k
      | (Some k, Some k') \<Rightarrow> Some (min k k'))"

definition spec_truncate ::
  "int list \<Rightarrow> int list \<Rightarrow> rat list option \<Rightarrow> int list \<times> rat list option" where
  "spec_truncate stops toks probs =
     (case spec_first_stop stops toks of
        None \<Rightarrow> (toks, probs)
      | Some k \<Rightarrow> (take k toks, map_option (take k) probs))"

text \<open>
  The trimming of one row in the words of the specification: slice to \<open>[start, end)\<close> with
  the end clipped to the row's width, then truncate at the first stop token.
\<close>

definition spec_trim_row ::
  "int list \<Rightarrow> request \<Rightarrow> int list \<Rightarrow> int list \<Rightarrow> rat list \<Rightarrow> int list \<times> rat list option" where
  "spec_trim_row stops r prompt toks lps =
     (let start = (if echo r then 0 else length prompt);
          stop = min (length prompt + max_gen_len r) (length toks)
      in spec_truncate stops
           (drop start (take stop toks))
           (if logprobs r
            then Some (drop start (take (min (length prompt + max_gen_len r) (length lps)) lps))
            else None))"

subsection \<open>\<^verbatim>\<open>Llama.generate\<close>\<close>

text \<open>
  The result pairs the log of model calls with the outcome. The two assertions and the
  \<^verbatim>\<open>min\<close> of an empty batch raise before anything else happens; an exception raised
  while decoding leaves \<^verbatim>\<open>generate\<close> after the model calls made so far.
\<close>

definition generate ::
  "('ms, 'lg) collab \<Rightarrow> 'ms \<Rightarrow> request \<Rightarrow>
     (int list list \<times> nat) list \<times> (error + int list list \<times> rat list option list option)" where
  "generate c ms r =
     (let bsz = length (prompt_tokens r)
      in if \<not> bsz \<le> max_batch_size c then ([], Inl AssertionError)
         else if prompt_tokens r = [] then ([], Inl ValueError)
         else if \<not> Max (set (map length (prompt_tokens r))) \<le> max_seq_len c
           then ([], Inl AssertionError)
         else (let s = decode c ms r
               in (calls s,
                   case failed s of
                     Some e \<Rightarrow> Inl e
                   | None \<Rightarrow> Inr (post_process (stop_tokens c) r s))))"

text \<open>The checks that the specification lists as preconditions of \<^verbatim>\<open>generate\<close>.\<close>

definition spec_precondition :: "('ms, 'lg) collab \<Rightarrow> request \<Rightarrow> bool" where
  "spec_precondition c r \<longleftrightarrow>
     1 \<le> length (prompt_tokens r) \<and> length (prompt_tokens r) \<le> max_batch_size c \<and>
     list_all (\<lambda>t. 1 \<le> length t \<and> length t \<le> max_seq_len c) (prompt_tokens r)"

subsection \<open>A toy model for concrete runs\<close>

text \<open>
  A deterministic collaborator over a vocabulary of ten tokens: the model proposes token
  \<open>table ! i ! j\<close> for row \<open>i\<close> at column \<open>j\<close>. Its logits are the proposed tokens,
  its softmax puts all mass on the proposed token, and every uniform variate is \<open>1/2\<close>.
\<close>

definition toy :: "int \<Rightarrow> int list \<Rightarrow> int list list \<Rightarrow> (unit, int list) collab" where
  "toy pad stops table =
     \<lparr> max_seq_len = 8,
       max_batch_size = 4,
       pad_id = pad,
       stop_tokens = stops,
       execute = (\<lambda>ms span pos.
                    (map (\<lambda>i. table ! i ! (pos + length (span ! i))) [0..<length span], ms)),
       softmax_last = (\<lambda>lg t. map (\<lambda>tok. map (\<lambda>v. if int v = tok then 1 else 0) [0..<10]) lg),
       rand = (\<lambda>col. replicate 4 (1 / 2)) \<rparr>"

definition req :: "int list list \<Rightarrow> nat \<Rightarrow> rat \<Rightarrow> bool \<Rightarrow> bool \<Rightarrow> request" where
  "req prompts n t lp e =
     \<lparr> prompt_tokens = prompts, max_gen_len = n, temperature = t, top_p = 9 / 10,
       logprobs = lp, echo = e \<rparr>"

text \<open>
  Run A: two prompts of different lengths, three tokens to generate, sampled at temperature
  0.6. Row 1 is proposed the stop token 9 at its first generated column and other tokens
  afterwards.
\<close>

definition toy_a :: "(unit, int list) collab" where
  "toy_a = toy 0 [9] [[0, 0, 8, 7, 7, 7], [0, 0, 9, 5, 6, 4]]"

definition req_a :: request where
  "req_a = req [[1, 2, 3], [1, 2]] 3 (6 / 10) False False"

text \<open>
  Run B: the tokenizer's pad id 0 occurs inside the second prompt, the model proposes the
  stop token 1 everywhere, and tokens are sampled at temperature 0.6.
\<close>

definition toy_b :: "(unit, int list) collab" where
  "toy_b = toy 0 [1] [[1, 1, 1, 1], [1, 1, 1, 1]]"

definition req_b :: request where
  "req_b = req [[5], [5, 0, 6]] 1 (6 / 10) False True"

section \<open>Properties\<close>

subsection \<open>Post-processing\<close>

lemma list_index_None: "list_index xs v = None \<longleftrightarrow> v \<notin> set xs"
  by (induction xs) auto

lemma list_index_Some:
  "list_index xs v = Some k \<Longrightarrow> k = length (takeWhile (\<lambda>t. t \<noteq> v) xs) \<and> k < length xs"
  by (induction xs arbitrary: k) (auto split: if_splits)

lemma takeWhile_conj: "takeWhile P (takeWhile Q xs) = takeWhile (\<lambda>x. Q x \<and> P x) xs"
  by (induction xs) auto

lemma takeWhile_True: "takeWhile (\<lambda>t. True) xs = xs"
  by (induction xs) simp_all

lemma take_length_takeWhile: "take (length (takeWhile P xs)) xs = takeWhile P xs"
  by (induction xs) auto

lemma spec_first_stop_takeWhile:
  "spec_first_stop stops toks =
     (if length (takeWhile (\<lambda>t. t \<notin> set stops) toks) < length toks
      then Some (length (takeWhile (\<lambda>t. t \<notin> set stops) toks)) else None)"
  by (induction toks) auto

text \<open>
  The loop over the stop tokens cuts at the length of the longest prefix free of stop
  tokens, whatever the order in which the stop tokens are tried.
\<close>

lemma cut_at_stops_takeWhile:
  "cut_at_stops toks probs stops =
     (let k = length (takeWhile (\<lambda>t. t \<notin> set stops) toks)
      in (take k toks, if k < length toks then map_option (take k) probs else probs))"
proof (induction stops arbitrary: toks probs)
  case Nil
  show ?case by (simp add: Let_def takeWhile_True)
next
  case (Cons st rest)
  show ?case
  proof (cases "list_index toks st")
    case None
    then have "st \<notin> set toks" by (simp add: list_index_None)
    then have "takeWhile (\<lambda>t. t \<notin> set (st # rest)) toks = takeWhile (\<lambda>t. t \<notin> set rest) toks"
      by (intro takeWhile_cong) auto
    then show ?thesis using None Cons.IH [of toks probs] by (simp add: Let_def)
  next
    case (Some k1)
    let ?tw = "takeWhile (\<lambda>t. t \<noteq> st) toks"
    let ?k = "length (takeWhile (\<lambda>t. t \<noteq> st \<and> t \<notin> set rest) toks)"
    have k1: "k1 = length ?tw" and k1_lt: "k1 < length toks"
      using list_index_Some [OF Some] by simp_all
    have tk: "take k1 toks = ?tw" by (simp add: k1 take_length_takeWhile)
    have eq: "takeWhile (\<lambda>t. t \<notin> set rest) ?tw = takeWhile (\<lambda>t. t \<noteq> st \<and> t \<notin> set rest) toks"
      by (simp add: takeWhile_conj)
    have le: "?k \<le> k1"
      unfolding k1 eq [symmetric] by (rule length_takeWhile_le)
    have t1: "take ?k ?tw = take ?k toks"
      using le by (simp add: tk [symmetric] min_absorb1)
    have t2: "map_option (take ?k) (map_option (take k1) probs) = map_option (take ?k) probs"
      using le by (cases probs) (simp_all add: min_absorb1)
    have len: "length ?tw = k1" by (simp add: k1)
    show ?thesis
    proof (cases "?k < k1")
      case True
      then show ?thesis
        using Some Cons.IH [of "take k1 toks" "map_option (take k1) probs"] k1_lt
        by (simp add: tk eq t1 t2 len Let_def)
    next
      case False
      then have "?k = k1" using le by simp
      then show ?thesis
        using Some Cons.IH [of "take k1 toks" "map_option (take k1) probs"] k1_lt
        by (simp add: tk eq t1 len Let_def)
    qed
  qed
qed

lemma cut_at_stops_spec: "cut_at_stops toks probs stops = spec_truncate stops toks probs"
  by (simp add: cut_at_stops_takeWhile spec_truncate_def spec_first_stop_takeWhile Let_def)

lemma trim_row_spec: "trim_row stops r prompt toks lps = spec_trim_row stops r prompt toks lps"
  by (simp add: trim_row_def spec_trim_row_def cut_at_stops_spec Let_def py_slice_def min_def)

lemma length_takeWhile_conj:
  "length (takeWhile (\<lambda>x. P x \<and> Q x) xs) =
     min (length (takeWhile P xs)) (length (takeWhile Q xs))"
  by (induction xs) simp_all

lemma list_index_takeWhile:
  "list_index xs v =
     (if length (takeWhile (\<lambda>t. t \<noteq> v) xs) < length xs
      then Some (length (takeWhile (\<lambda>t. t \<noteq> v) xs)) else None)"
  by (induction xs) auto

lemma spec_first_stop_min_index: "spec_first_stop stops toks = spec_min_index toks stops"
proof (induction stops)
  case Nil
  show ?case by (simp add: spec_first_stop_takeWhile takeWhile_True)
next
  case (Cons st rest)
  let ?a = "length (takeWhile (\<lambda>t. t \<noteq> st) toks)"
  let ?b = "length (takeWhile (\<lambda>t. t \<notin> set rest) toks)"
  have len: "length (takeWhile (\<lambda>t. t \<notin> set (st # rest)) toks) = min ?a ?b"
    using length_takeWhile_conj [of "\<lambda>t. t \<noteq> st" "\<lambda>t. t \<notin> set rest" toks] by simp
  have a: "?a \<le> length toks" and b: "?b \<le> length toks" by (rule length_takeWhile_le)+
  have rest: "spec_min_index toks rest = (if ?b < length toks then Some ?b else None)"
    using Cons.IH by (simp add: spec_first_stop_takeWhile)
  have lhs: "spec_first_stop (st # rest) toks =
               (if min ?a ?b < length toks then Some (min ?a ?b) else None)"
    unfolding spec_first_stop_takeWhile [of "st # rest" toks] len by simp
  show ?case
    unfolding lhs using a b
    by (simp add: rest list_index_takeWhile min_def)
qed

text \<open>
  C2. Post-processing treats every row on its own: the row of the token buffer is sliced to
  \<open>[start, len(prompt) + max_gen_len)\<close>, with \<open>start = 0\<close> under echo and the row's own
  prompt length otherwise and the end clipped to the width of the buffer, and the slice is
  cut at the first position holding any stop token. The source's loop over the single stop
  tokens gives exactly this one cut, which is the cut at the least first-occurrence index
  over all stop tokens, and the log-probability slice, when requested, is cut at the same
  indices.
\<close>

theorem post_process_trims_each_row:
  "post_process stops r s =
     (map (\<lambda>i. fst (spec_trim_row stops r (prompt_tokens r ! i) (tokens s ! i)
                        (token_logprobs s ! i))) [0..<length (tokens s)],
      if logprobs r
      then Some (map (\<lambda>i. snd (spec_trim_row stops r (prompt_tokens r ! i) (tokens s ! i)
                                  (token_logprobs s ! i))) [0..<length (tokens s)])
      else None) \<and>
   cut_at_stops toks probs stops = spec_truncate stops toks probs \<and>
   spec_first_stop stops toks = spec_min_index toks stops"
  by (simp add: post_process_def trim_row_spec cut_at_stops_spec spec_first_stop_min_index
      Let_def comp_def)

theorem post_process_trims_each_row_witness:
  "failed (decode toy_a () req_a) = None \<and>
   tokens (decode toy_a () req_a) = [[1, 2, 3, 7, 7, 7], [1, 2, 9, 5, 6, 4]] \<and>
   post_process [6, 9] req_a (decode toy_a () req_a) =
     (map (\<lambda>i. fst (spec_trim_row [6, 9] req_a (prompt_tokens req_a ! i)
                        (tokens (decode toy_a () req_a) ! i)
                        (token_logprobs (decode toy_a () req_a) ! i)))
          [0..<length (tokens (decode toy_a () req_a))],
      if logprobs req_a
      then Some (map (\<lambda>i. snd (spec_trim_row [6, 9] req_a (prompt_tokens req_a ! i)
                                  (tokens (decode toy_a () req_a) ! i)
                                  (token_logprobs (decode toy_a () req_a) ! i)))
                   [0..<length (tokens (decode toy_a () req_a))])
      else None) \<and>
   cut_at_stops [1, 9, 6, 4] (Some [- 1, - 2, - 3, - 4]) [6, 9] =
     spec_truncate [6, 9] [1, 9, 6, 4] (Some [- 1, - 2, - 3, - 4]) \<and>
   spec_first_stop [6, 9] [1, 9, 6, 4] = spec_min_index [1, 9, 6, 4] [6, 9] \<and>
   post_process [6, 9] req_a (decode toy_a () req_a) = ([[7, 7, 7], []], None) \<and>
   cut_at_stops [1, 9, 6, 4] (Some [- 1, - 2, - 3, - 4]) [6, 9] = ([1], Some [- 1]) \<and>
   cut_at_stops [9, 5, 6] None [6, 9] = ([], None) \<and>
   spec_min_index [1, 9, 6, 4] [6, 9] = Some 1"
proof -
  have v: "failed (decode toy_a () req_a) = None \<and>
   tokens (decode toy_a () req_a) = [[1, 2, 3, 7, 7, 7], [1, 2, 9, 5, 6, 4]] \<and>
   post_process [6, 9] req_a (decode toy_a () req_a) = ([[7, 7, 7], []], None) \<and>
   cut_at_stops [1, 9, 6, 4] (Some [- 1, - 2, - 3, - 4]) [6, 9] = ([1], Some [- 1]) \<and>
   cut_at_stops [9, 5, 6] None [6, 9] = ([], None) \<and>
   spec_min_index [1, 9, 6, 4] [6, 9] = Some 1"
    by code_simp
  note t = post_process_trims_each_row [where stops = "[6, 9]" and r = req_a
      and s = "decode toy_a () req_a"
      and toks = "[1, 9, 6, 4]" and probs = "Some [- 1, - 2, - 3, - 4]"]
  show ?thesis using t v by blast
qed

subsection \<open>The decode loop\<close>

lemma int32_id: "in_int32 x \<Longrightarrow> int32 x = x"
  by (simp add: int32_def in_int32_def)

lemma map_int32_id: "list_all in_int32 xs \<Longrightarrow> map int32 xs = xs"
  by (induction xs) (simp_all add: int32_id)

lemma propose_cases:
  "propose c r cur_pos lg =
     (if 0 < temperature r then Inr (sampled c r cur_pos lg) else Inl AttributeError)"
  by (simp add: propose_def)

lemma decode_step_tokens:
  "tokens (decode_step c r cur_pos s) =
     (if 0 < temperature r
      then set_column (tokens s) cur_pos
             (jt_where (column (input_text_mask s) cur_pos) (column (tokens s) cur_pos)
                (candidates c r cur_pos s))
      else tokens s)"
  by (simp add: decode_step_def candidates_def propose_def Let_def split: prod.split)

lemma decode_step_mask [simp]:
  "input_text_mask (decode_step c r cur_pos s) = input_text_mask s"
  by (simp add: decode_step_def propose_def Let_def split: prod.split)

lemma decode_step_eos:
  "eos_reached (decode_step c r cur_pos s) =
     (if 0 < temperature r \<and> \<not> logprobs r
      then map (\<lambda>i. eos_reached s ! i \<or>
               (\<not> column (input_text_mask s) cur_pos ! i \<and>
                isin (jt_where (column (input_text_mask s) cur_pos) (column (tokens s) cur_pos)
                        (candidates c r cur_pos s)) (stop_tokens c) ! i))
             [0..<length (eos_reached s)]
      else eos_reached s)"
  by (simp add: decode_step_def candidates_def propose_def Let_def split: prod.split)

lemma decode_step_calls:
  "calls (decode_step c r cur_pos s) = calls s @ [(span_of s cur_pos, prev_pos s)]"
  by (simp add: decode_step_def propose_def Let_def split: prod.split)

lemma decode_step_failed:
  "failed (decode_step c r cur_pos s) =
     (if 0 < temperature r \<and> \<not> logprobs r then failed s else Some AttributeError)"
  by (simp add: decode_step_def propose_def Let_def split: prod.split)

lemma length_decode_step_tokens [simp]:
  "length (tokens (decode_step c r cur_pos s)) = length (tokens s)"
  by (simp add: decode_step_tokens set_column_def)

lemma length_decode_step_row:
  "i < length (tokens s) \<Longrightarrow>
     length (tokens (decode_step c r cur_pos s) ! i) = length (tokens s ! i)"
  by (simp add: decode_step_tokens set_column_def)

lemma length_decode_step_eos [simp]:
  "length (eos_reached (decode_step c r cur_pos s)) = length (eos_reached s)"
  by (simp add: decode_step_eos)

lemma wf_decode_step: "wf_state s \<Longrightarrow> wf_state (decode_step c r cur_pos s)"
  by (simp add: wf_state_def)

text \<open>The token that the step puts in front of row \<open>i\<close> at the cursor column.\<close>

lemma written_token:
  "wf_state s \<Longrightarrow> i < length (tokens s) \<Longrightarrow>
     jt_where (column (input_text_mask s) cur_pos) (column (tokens s) cur_pos)
        (candidates c r cur_pos s) ! i =
     (if input_text_mask s ! i ! cur_pos then tokens s ! i ! cur_pos
      else candidates c r cur_pos s ! i)"
  by (simp add: wf_state_def jt_where_def column_def)

lemma decode_step_row:
  "wf_state s \<Longrightarrow> i < length (tokens s) \<Longrightarrow>
     tokens (decode_step c r cur_pos s) ! i =
       (if 0 < temperature r
        then (tokens s ! i)[cur_pos := (if input_text_mask s ! i ! cur_pos then tokens s ! i ! cur_pos
                                         else candidates c r cur_pos s ! i)]
        else tokens s ! i)"
  by (simp add: decode_step_tokens set_column_def written_token)

lemma decode_step_row_masked:
  "wf_state s \<Longrightarrow> i < length (tokens s) \<Longrightarrow> input_text_mask s ! i ! cur_pos \<Longrightarrow>
     tokens (decode_step c r cur_pos s) ! i = tokens s ! i"
  by (simp add: decode_step_row)

lemma decode_step_cell_masked:
  "wf_state s \<Longrightarrow> i < length (tokens s) \<Longrightarrow> input_text_mask s ! i ! j \<Longrightarrow>
     tokens (decode_step c r cur_pos s) ! i ! j = tokens s ! i ! j"
  by (cases "j = cur_pos") (simp_all add: decode_step_row list_update_same_conv)

lemma decode_step_cell_unmasked:
  "wf_state s \<Longrightarrow> i < length (tokens s) \<Longrightarrow> cur_pos < length (tokens s ! i) \<Longrightarrow>
   \<not> input_text_mask s ! i ! cur_pos \<Longrightarrow> 0 < temperature r \<Longrightarrow>
     tokens (decode_step c r cur_pos s) ! i ! cur_pos = candidates c r cur_pos s ! i"
  by (simp add: decode_step_row)

lemma decode_step_eos_nth:
  "wf_state s \<Longrightarrow> i < length (tokens s) \<Longrightarrow> 0 < temperature r \<Longrightarrow> \<not> logprobs r \<Longrightarrow>
     eos_reached (decode_step c r cur_pos s) ! i =
       (eos_reached s ! i \<or>
        (\<not> input_text_mask s ! i ! cur_pos \<and> candidates c r cur_pos s ! i \<in> set (stop_tokens c)))"
  by (auto simp add: decode_step_eos wf_state_def isin_def jt_where_def column_def)

lemma decode_step_eos_keep:
  "wf_state s \<Longrightarrow> i < length (tokens s) \<Longrightarrow> eos_reached s ! i \<Longrightarrow>
     eos_reached (decode_step c r cur_pos s) ! i"
  by (simp add: decode_step_eos wf_state_def)

lemma decode_step_eos_masked:
  "wf_state s \<Longrightarrow> i < length (tokens s) \<Longrightarrow> input_text_mask s ! i ! cur_pos \<Longrightarrow>
     eos_reached (decode_step c r cur_pos s) ! i = eos_reached s ! i"
  by (simp add: decode_step_eos wf_state_def column_def)

lemma decode_step_eos_origin:
  "wf_state s \<Longrightarrow> i < length (tokens s) \<Longrightarrow> eos_reached (decode_step c r cur_pos s) ! i \<Longrightarrow>
     eos_reached s ! i \<or> (0 < temperature r \<and> \<not> logprobs r)"
  by (auto simp add: decode_step_eos split: if_splits)

lemma decode_step_ignores_eos:
  "tokens (decode_step c r cur_pos (s\<lparr>eos_reached := e\<rparr>)) = tokens (decode_step c r cur_pos s)"
  by (simp add: decode_step_tokens candidates_def span_of_def)

lemma decode_loop_mask [simp]:
  "input_text_mask (decode_loop c r ps s) = input_text_mask s"
  by (induction ps arbitrary: s) (simp_all add: Let_def)

lemma length_decode_loop_tokens [simp]:
  "length (tokens (decode_loop c r ps s)) = length (tokens s)"
  by (induction ps arbitrary: s) (simp_all add: Let_def)

lemma wf_decode_loop: "wf_state s \<Longrightarrow> wf_state (decode_loop c r ps s)"
  by (induction ps arbitrary: s) (simp_all add: Let_def wf_decode_step)

lemma decode_loop_cell_masked:
  "wf_state s \<Longrightarrow> i < length (tokens s) \<Longrightarrow> input_text_mask s ! i ! j \<Longrightarrow>
     tokens (decode_loop c r ps s) ! i ! j = tokens s ! i ! j"
proof (induction ps arbitrary: s)
  case Nil
  then show ?case by simp
next
  case (Cons cur_pos rest)
  let ?s' = "decode_step c r cur_pos s"
  have step: "tokens ?s' ! i ! j = tokens s ! i ! j"
    using Cons.prems by (rule decode_step_cell_masked)
  have "tokens (decode_loop c r rest ?s') ! i ! j = tokens ?s' ! i ! j"
    using Cons.prems by (intro Cons.IH) (simp_all add: wf_decode_step)
  with step show ?case by (simp add: Let_def)
qed

lemma decode_loop_eos_mono:
  "wf_state s \<Longrightarrow> i < length (tokens s) \<Longrightarrow> eos_reached s ! i \<Longrightarrow>
     eos_reached (decode_loop c r ps s) ! i"
proof (induction ps arbitrary: s)
  case Nil
  then show ?case by simp
next
  case (Cons cur_pos rest)
  let ?s' = "decode_step c r cur_pos s"
  have step: "eos_reached ?s' ! i"
    using Cons.prems by (rule decode_step_eos_keep)
  have "eos_reached (decode_loop c r rest ?s') ! i"
    using Cons.prems step by (intro Cons.IH) (simp_all add: wf_decode_step)
  with step show ?case by (simp add: Let_def)
qed

text \<open>A row is only ever stopped by a step that completes.\<close>

lemma decode_loop_eos_origin:
  "wf_state s \<Longrightarrow> i < length (tokens s) \<Longrightarrow> eos_reached (decode_loop c r ps s) ! i \<Longrightarrow>
     eos_reached s ! i \<or> (0 < temperature r \<and> \<not> logprobs r)"
proof (induction ps arbitrary: s)
  case Nil
  then show ?case by simp
next
  case (Cons cur_pos rest)
  let ?s' = "decode_step c r cur_pos s"
  have wf': "wf_state ?s'" using Cons.prems(1) by (rule wf_decode_step)
  have i': "i < length (tokens ?s')" using Cons.prems(2) by simp
  have "eos_reached ?s' ! i \<or> (0 < temperature r \<and> \<not> logprobs r)"
  proof (cases "failed ?s' \<noteq> None \<or> list_all (\<lambda>b. b) (eos_reached ?s')")
    case True
    then have "decode_loop c r (cur_pos # rest) s = ?s'" by (auto simp add: Let_def)
    with Cons.prems(3) show ?thesis by simp
  next
    case False
    then have "decode_loop c r (cur_pos # rest) s = decode_loop c r rest ?s'"
      by (auto simp add: Let_def)
    with Cons.prems(3) have "eos_reached (decode_loop c r rest ?s') ! i" by simp
    from Cons.IH [OF wf' i' this] show ?thesis .
  qed
  then show ?case using decode_step_eos_origin [OF Cons.prems(1,2)] by blast
qed

lemma length_decode_loop_row:
  "i < length (tokens s) \<Longrightarrow>
     length (tokens (decode_loop c r ps s) ! i) = length (tokens s ! i)"
  by (induction ps arbitrary: s) (simp_all add: Let_def length_decode_step_row)

lemma prime_fields [simp]:
  "tokens (prime c s) = tokens s"
  "input_text_mask (prime c s) = input_text_mask s"
  "eos_reached (prime c s) = eos_reached s"
  "failed (prime c s) = Some AttributeError"
  by (simp_all add: prime_def split: prod.split)

lemma wf_prime: "wf_state s \<Longrightarrow> wf_state (prime c s)"
  by (simp add: wf_state_def)

lemma init_state_fields [simp]:
  "tokens (init_state c ms r) = init_tokens (pad_id c) (total_len_of c r) (prompt_tokens r)"
  "input_text_mask (init_state c ms r) =
     map (map (\<lambda>x. x \<noteq> int32 (pad_id c)))
       (init_tokens (pad_id c) (total_len_of c r) (prompt_tokens r))"
  "eos_reached (init_state c ms r) = replicate (length (prompt_tokens r)) False"
  "calls (init_state c ms r) = []"
  "failed (init_state c ms r) = None"
  by (simp_all add: init_state_def Let_def)

lemma length_init_tokens [simp]: "length (init_tokens pad n prompts) = length prompts"
  by (simp add: init_tokens_def)

lemma init_tokens_nth:
  "i < length prompts \<Longrightarrow>
     init_tokens pad n prompts ! i =
       map int32 (prompts ! i) @ replicate (n - length (prompts ! i)) (int32 pad)"
  by (simp add: init_tokens_def)

lemma wf_init_state: "wf_state (init_state c ms r)"
  by (simp add: wf_state_def)

lemma decode_alt:
  "decode c ms r = decode_loop c r [min_prompt_len_of r..<total_len_of c r] (start_state c ms r)"
  by (simp add: decode_def start_state_def Let_def)

lemma start_state_fields [simp]:
  "tokens (start_state c ms r) = init_tokens (pad_id c) (total_len_of c r) (prompt_tokens r)"
  "input_text_mask (start_state c ms r) =
     map (map (\<lambda>x. x \<noteq> int32 (pad_id c)))
       (init_tokens (pad_id c) (total_len_of c r) (prompt_tokens r))"
  "eos_reached (start_state c ms r) = replicate (length (prompt_tokens r)) False"
  by (simp_all add: start_state_def)

lemma wf_start_state: "wf_state (start_state c ms r)"
  by (simp add: wf_state_def)

lemma decode_mask:
  "input_text_mask (decode c ms r) =
     map (map (\<lambda>x. x \<noteq> int32 (pad_id c)))
       (init_tokens (pad_id c) (total_len_of c r) (prompt_tokens r))"
  by (simp add: decode_alt)

lemma length_decode_tokens [simp]: "length (tokens (decode c ms r)) = length (prompt_tokens r)"
  by (simp add: decode_alt)

text \<open>
  A prompt cell whose stored value differs from the stored pad id keeps its stored value.
\<close>

lemma decode_keeps_stored_cell:
  assumes i: "i < length (prompt_tokens r)" and j: "j < length (prompt_tokens r ! i)"
    and np: "int32 (prompt_tokens r ! i ! j) \<noteq> int32 (pad_id c)"
  shows "tokens (decode c ms r) ! i ! j = int32 (prompt_tokens r ! i ! j)"
proof -
  let ?s = "start_state c ms r"
  have cell: "tokens ?s ! i ! j = int32 (prompt_tokens r ! i ! j)"
    using i j by (simp add: init_tokens_nth nth_append)
  have len: "j < length (tokens ?s ! i)" using i j by (simp add: init_tokens_nth)
  have m: "input_text_mask ?s ! i ! j"
    using i j np len cell by simp
  have "tokens (decode c ms r) ! i ! j = tokens ?s ! i ! j"
    unfolding decode_alt using wf_start_state _ m by (rule decode_loop_cell_masked) (simp add: i)
  with cell show ?thesis by simp
qed

lemma length_decode_row:
  "i < length (prompt_tokens r) \<Longrightarrow>
     length (tokens (decode c ms r) ! i) =
       length (prompt_tokens r ! i) + (total_len_of c r - length (prompt_tokens r ! i))"
  by (simp add: decode_alt length_decode_loop_row init_tokens_nth)

lemma decode_keeps_prompt:
  assumes i: "i < length (prompt_tokens r)" and np: "pad_id c \<notin> set (prompt_tokens r ! i)"
    and rp: "in_int32 (pad_id c)" and rt: "list_all in_int32 (prompt_tokens r ! i)"
  shows "take (length (prompt_tokens r ! i)) (tokens (decode c ms r) ! i) = prompt_tokens r ! i"
proof (rule nth_equalityI)
  show "length (take (length (prompt_tokens r ! i)) (tokens (decode c ms r) ! i)) =
          length (prompt_tokens r ! i)"
    using i by (simp add: length_decode_row)
next
  fix j assume "j < length (take (length (prompt_tokens r ! i)) (tokens (decode c ms r) ! i))"
  then have j: "j < length (prompt_tokens r ! i)" by simp
  then have ne: "prompt_tokens r ! i ! j \<noteq> pad_id c" using np by (metis nth_mem)
  have "in_int32 (prompt_tokens r ! i ! j)" using rt j by (simp add: list_all_length)
  then have id: "int32 (prompt_tokens r ! i ! j) = prompt_tokens r ! i ! j" by (rule int32_id)
  have "int32 (prompt_tokens r ! i ! j) \<noteq> int32 (pad_id c)"
    using ne id int32_id [OF rp] by simp
  from decode_keeps_stored_cell [OF i j this] id j
  show "take (length (prompt_tokens r ! i)) (tokens (decode c ms r) ! i) ! j =
                   prompt_tokens r ! i ! j"
    by simp
qed

text \<open>
  C3 (as amended). Whenever the Input-Text Mask is true at \<open>[row, cur_pos]\<close>, the step
  writes back the token already stored there, so the row is unchanged. After the whole
  loop every prompt cell whose stored value differs from the stored pad id still holds
  its stored value; for a prompt token and a pad id within the 32-bit range of the buffer
  that is the prompt token itself, and a row whose prompt consists of such tokens and does
  not contain \<open>pad_id\<close> still starts with its complete prompt.
\<close>

theorem prompt_replay_precedence:
  "(wf_state s \<and> i < length (tokens s) \<and> input_text_mask s ! i ! cur_pos \<longrightarrow>
      tokens (decode_step c r cur_pos s) ! i = tokens s ! i) \<and>
   (k < length (prompt_tokens r) \<and> j < length (prompt_tokens r ! k) \<and>
    int32 (prompt_tokens r ! k ! j) \<noteq> int32 (pad_id c) \<longrightarrow>
      tokens (decode c ms r) ! k ! j = int32 (prompt_tokens r ! k ! j)) \<and>
   (k < length (prompt_tokens r) \<and> j < length (prompt_tokens r ! k) \<and>
    in_int32 (pad_id c) \<and> in_int32 (prompt_tokens r ! k ! j) \<and>
    prompt_tokens r ! k ! j \<noteq> pad_id c \<longrightarrow>
      tokens (decode c ms r) ! k ! j = prompt_tokens r ! k ! j) \<and>
   (k < length (prompt_tokens r) \<and> in_int32 (pad_id c) \<and>
    list_all in_int32 (prompt_tokens r ! k) \<and> pad_id c \<notin> set (prompt_tokens r ! k) \<longrightarrow>
      take (length (prompt_tokens r ! k)) (tokens (decode c ms r) ! k) = prompt_tokens r ! k)"
proof (intro conjI impI)
  assume "wf_state s \<and> i < length (tokens s) \<and> input_text_mask s ! i ! cur_pos"
  then show "tokens (decode_step c r cur_pos s) ! i = tokens s ! i"
    by (simp add: decode_step_row_masked)
next
  assume "k < length (prompt_tokens r) \<and> j < length (prompt_tokens r ! k) \<and>
    int32 (prompt_tokens r ! k ! j) \<noteq> int32 (pad_id c)"
  then show "tokens (decode c ms r) ! k ! j = int32 (prompt_tokens r ! k ! j)"
    by (simp add: decode_keeps_stored_cell)
next
  assume a: "k < length (prompt_tokens r) \<and> j < length (prompt_tokens r ! k) \<and>
    in_int32 (pad_id c) \<and> in_int32 (prompt_tokens r ! k ! j) \<and>
    prompt_tokens r ! k ! j \<noteq> pad_id c"
  then have "int32 (prompt_tokens r ! k ! j) \<noteq> int32 (pad_id c)" by (simp add: int32_id)
  with a show "tokens (decode c ms r) ! k ! j = prompt_tokens r ! k ! j"
    by (simp add: decode_keeps_stored_cell int32_id)
next
  assume "k < length (prompt_tokens r) \<and> in_int32 (pad_id c) \<and>
    list_all in_int32 (prompt_tokens r ! k) \<and> pad_id c \<notin> set (prompt_tokens r ! k)"
  then show "take (length (prompt_tokens r ! k)) (tokens (decode c ms r) ! k) = prompt_tokens r ! k"
    by (intro decode_keeps_prompt) simp_all
qed

theorem prompt_replay_precedence_witness:
  "0 < temperature req_a \<and> \<not> logprobs req_a \<and> failed (decode toy_a () req_a) = None \<and>
   wf_state (start_state toy_a () req_a) \<and>
   0 < length (tokens (start_state toy_a () req_a)) \<and>
   input_text_mask (start_state toy_a () req_a) ! 0 ! 2 \<and>
   tokens (decode_step toy_a req_a 2 (start_state toy_a () req_a)) ! 0 =
     tokens (start_state toy_a () req_a) ! 0 \<and>
   0 < length (prompt_tokens req_a) \<and> 2 < length (prompt_tokens req_a ! 0) \<and>
   int32 (prompt_tokens req_a ! 0 ! 2) \<noteq> int32 (pad_id toy_a) \<and>
   tokens (decode toy_a () req_a) ! 0 ! 2 = int32 (prompt_tokens req_a ! 0 ! 2) \<and>
   in_int32 (pad_id toy_a) \<and> in_int32 (prompt_tokens req_a ! 0 ! 2) \<and>
   prompt_tokens req_a ! 0 ! 2 \<noteq> pad_id toy_a \<and>
   tokens (decode toy_a () req_a) ! 0 ! 2 = prompt_tokens req_a ! 0 ! 2 \<and>
   list_all in_int32 (prompt_tokens req_a ! 0) \<and>
   pad_id toy_a \<notin> set (prompt_tokens req_a ! 0) \<and>
   take (length (prompt_tokens req_a ! 0)) (tokens (decode toy_a () req_a) ! 0) =
     prompt_tokens req_a ! 0 \<and>
   tokens (decode toy_a () req_a) = [[1, 2, 3, 7, 7, 7], [1, 2, 9, 5, 6, 4]]"
proof -
  let ?s = "start_state toy_a () req_a"
  have run: "0 < temperature req_a \<and> \<not> logprobs req_a \<and> failed (decode toy_a () req_a) = None"
    by code_simp
  have wf: "wf_state ?s" by (rule wf_start_state)
  have i: "0 < length (tokens ?s)" by code_simp
  have m: "input_text_mask ?s ! 0 ! 2" by code_simp
  have k: "0 < length (prompt_tokens req_a)" by code_simp
  have j: "2 < length (prompt_tokens req_a ! 0)" by code_simp
  have st: "int32 (prompt_tokens req_a ! 0 ! 2) \<noteq> int32 (pad_id toy_a)" by code_simp
  have rp: "in_int32 (pad_id toy_a)" by code_simp
  have rc: "in_int32 (prompt_tokens req_a ! 0 ! 2)" by code_simp
  have np: "prompt_tokens req_a ! 0 ! 2 \<noteq> pad_id toy_a" by code_simp
  have rt: "list_all in_int32 (prompt_tokens req_a ! 0)" by code_simp
  have ns: "pad_id toy_a \<notin> set (prompt_tokens req_a ! 0)" by code_simp
  have v: "tokens (decode toy_a () req_a) = [[1, 2, 3, 7, 7, 7], [1, 2, 9, 5, 6, 4]]"
    by code_simp
  note t = prompt_replay_precedence [where s = ?s and i = 0 and cur_pos = 2 and c = toy_a
      and r = req_a and k = 0 and j = 2 and ms = "()"]
  show ?thesis using t run wf i m k j st rp rc np rt ns v by blast
qed

text \<open>
  The claim as stated, for every batch, fails in run B: the second prompt is \<open>[5, 0, 6]\<close>
  and the buffer row starts with \<open>[5, 1, 6]\<close> when the loop ends.
\<close>

theorem prompt_prefix_counterexample:
  "0 < temperature req_b \<and> \<not> logprobs req_b \<and> failed (decode toy_b () req_b) = None \<and>
   prompt_tokens req_b ! 1 = [5, 0, 6] \<and>
   take 3 (tokens (decode toy_b () req_b) ! 1) = [5, 1, 6]"
  by code_simp

text \<open>
  C6. The stop-mask never goes back: a row that is stopped stays stopped through a step and
  through any further run of the loop. After a step that completes (positive temperature,
  no log-probabilities) a row is stopped exactly when it was stopped before, or its mask is
  false at the cursor column and the token produced for it there is a stop token; a
  replayed prompt token leaves the row's stop-mask as it was, and only a step that
  completes can stop a row.
\<close>

theorem eos_reached_monotone:
  "wf_state s \<and> i < length (tokens s) \<longrightarrow>
     (eos_reached s ! i \<longrightarrow> eos_reached (decode_loop c r ps s) ! i) \<and>
     (eos_reached s ! i \<longrightarrow> eos_reached (decode_step c r cur_pos s) ! i) \<and>
     (0 < temperature r \<and> \<not> logprobs r \<longrightarrow>
        (eos_reached (decode_step c r cur_pos s) ! i \<longleftrightarrow>
           eos_reached s ! i \<or>
           (\<not> input_text_mask s ! i ! cur_pos \<and>
            candidates c r cur_pos s ! i \<in> set (stop_tokens c)))) \<and>
     (0 < temperature r \<and> \<not> logprobs r \<and> cur_pos < length (tokens s ! i) \<longrightarrow>
        (eos_reached (decode_step c r cur_pos s) ! i \<longleftrightarrow>
           eos_reached s ! i \<or>
           (\<not> input_text_mask s ! i ! cur_pos \<and>
            tokens (decode_step c r cur_pos s) ! i ! cur_pos \<in> set (stop_tokens c)))) \<and>
     (input_text_mask s ! i ! cur_pos \<longrightarrow>
        eos_reached (decode_step c r cur_pos s) ! i = eos_reached s ! i) \<and>
     (eos_reached (decode_step c r cur_pos s) ! i \<longrightarrow>
        eos_reached s ! i \<or> (0 < temperature r \<and> \<not> logprobs r))"
proof (intro impI)
  assume a: "wf_state s \<and> i < length (tokens s)"
  then have wf: "wf_state s" and i: "i < length (tokens s)" by simp_all
  have c1: "eos_reached s ! i \<longrightarrow> eos_reached (decode_loop c r ps s) ! i"
    using decode_loop_eos_mono [OF wf i] by blast
  have c2: "eos_reached s ! i \<longrightarrow> eos_reached (decode_step c r cur_pos s) ! i"
    using decode_step_eos_keep [OF wf i] by blast
  have c3: "0 < temperature r \<and> \<not> logprobs r \<longrightarrow>
        (eos_reached (decode_step c r cur_pos s) ! i \<longleftrightarrow>
           eos_reached s ! i \<or>
           (\<not> input_text_mask s ! i ! cur_pos \<and>
            candidates c r cur_pos s ! i \<in> set (stop_tokens c)))"
    using decode_step_eos_nth [OF wf i] by blast
  have c4: "0 < temperature r \<and> \<not> logprobs r \<and> cur_pos < length (tokens s ! i) \<longrightarrow>
        (eos_reached (decode_step c r cur_pos s) ! i \<longleftrightarrow>
           eos_reached s ! i \<or>
           (\<not> input_text_mask s ! i ! cur_pos \<and>
            tokens (decode_step c r cur_pos s) ! i ! cur_pos \<in> set (stop_tokens c)))"
    using wf i by (auto simp add: decode_step_eos_nth decode_step_row)
  have c5: "input_text_mask s ! i ! cur_pos \<longrightarrow>
        eos_reached (decode_step c r cur_pos s) ! i = eos_reached s ! i"
    using decode_step_eos_masked [OF wf i] by blast
  have c6: "eos_reached (decode_step c r cur_pos s) ! i \<longrightarrow>
        eos_reached s ! i \<or> (0 < temperature r \<and> \<not> logprobs r)"
    using decode_step_eos_origin [OF wf i] by blast
  show "(eos_reached s ! i \<longrightarrow> eos_reached (decode_loop c r ps s) ! i) \<and>
     (eos_reached s ! i \<longrightarrow> eos_reached (decode_step c r cur_pos s) ! i) \<and>
     (0 < temperature r \<and> \<not> logprobs r \<longrightarrow>
        (eos_reached (decode_step c r cur_pos s) ! i \<longleftrightarrow>
           eos_reached s ! i \<or>
           (\<not> input_text_mask s ! i ! cur_pos \<and>
            candidates c r cur_pos s ! i \<in> set (stop_tokens c)))) \<and>
     (0 < temperature r \<and> \<not> logprobs r \<and> cur_pos < length (tokens s ! i) \<longrightarrow>
        (eos_reached (decode_step c r cur_pos s) ! i \<longleftrightarrow>
           eos_reached s ! i \<or>
           (\<not> input_text_mask s ! i ! cur_pos \<and>
            tokens (decode_step c r cur_pos s) ! i ! cur_pos \<in> set (stop_tokens c)))) \<and>
     (input_text_mask s ! i ! cur_pos \<longrightarrow>
        eos_reached (decode_step c r cur_pos s) ! i = eos_reached s ! i) \<and>
     (eos_reached (decode_step c r cur_pos s) ! i \<longrightarrow>
        eos_reached s ! i \<or> (0 < temperature r \<and> \<not> logprobs r))"
    using c1 c2 c3 c4 c5 c6 by blast
qed

theorem eos_reached_monotone_witness:
  "0 < temperature req_a \<and> \<not> logprobs req_a \<and>
   failed (decode_step toy_a req_a 2 (start_state toy_a () req_a)) = None \<and>
   wf_state (decode_step toy_a req_a 2 (start_state toy_a () req_a)) \<and>
   1 < length (tokens (decode_step toy_a req_a 2 (start_state toy_a () req_a))) \<and>
   eos_reached (decode_step toy_a req_a 2 (start_state toy_a () req_a)) ! 1 \<and>
   eos_reached (decode_loop toy_a req_a [3, 4, 5]
                  (decode_step toy_a req_a 2 (start_state toy_a () req_a))) ! 1 \<and>
   eos_reached (decode_step toy_a req_a 3
                  (decode_step toy_a req_a 2 (start_state toy_a () req_a))) ! 1 \<and>
   \<not> eos_reached (start_state toy_a () req_a) ! 1 \<and>
   \<not> input_text_mask (start_state toy_a () req_a) ! 1 ! 2 \<and>
   candidates toy_a req_a 2 (start_state toy_a () req_a) ! 1 \<in> set (stop_tokens toy_a) \<and>
   2 < length (tokens (start_state toy_a () req_a) ! 1) \<and>
   tokens (decode_step toy_a req_a 2 (start_state toy_a () req_a)) ! 1 ! 2
     \<in> set (stop_tokens toy_a) \<and>
   input_text_mask (start_state toy_a () req_a) ! 0 ! 2 \<and>
   eos_reached (decode_step toy_a req_a 2 (start_state toy_a () req_a)) ! 0 =
     eos_reached (start_state toy_a () req_a) ! 0 \<and>
   eos_reached (decode toy_a () req_a) = [False, True]"
proof -
  let ?s = "start_state toy_a () req_a"
  let ?s1 = "decode_step toy_a req_a 2 ?s"
  have run: "0 < temperature req_a \<and> \<not> logprobs req_a \<and> failed ?s1 = None" by code_simp
  have wf: "wf_state ?s" by (rule wf_start_state)
  have wf1: "wf_state ?s1" using wf by (rule wf_decode_step)
  have i0: "0 < length (tokens ?s)" and i1: "1 < length (tokens ?s)" by code_simp+
  have i1': "1 < length (tokens ?s1)" by code_simp
  have e0: "\<not> eos_reached ?s ! 1" by code_simp
  have m1: "\<not> input_text_mask ?s ! 1 ! 2" by code_simp
  have m0: "input_text_mask ?s ! 0 ! 2" by code_simp
  have cd: "candidates toy_a req_a 2 ?s ! 1 \<in> set (stop_tokens toy_a)" by code_simp
  have ln: "2 < length (tokens ?s ! 1)" by code_simp
  have fin: "eos_reached (decode toy_a () req_a) = [False, True]" by code_simp
  note a = eos_reached_monotone [where s = ?s and i = 1 and cur_pos = 2 and c = toy_a
      and r = req_a and ps = "[]"]
  note b = eos_reached_monotone [where s = ?s1 and i = 1 and cur_pos = 3 and c = toy_a
      and r = req_a and ps = "[3, 4, 5]"]
  note d = eos_reached_monotone [where s = ?s and i = 0 and cur_pos = 2 and c = toy_a
      and r = req_a and ps = "[]"]
  have e1: "eos_reached ?s1 ! 1" using a run wf i1 m1 cd by blast
  have tk: "tokens ?s1 ! 1 ! 2 \<in> set (stop_tokens toy_a)" using a run wf i1 ln e0 e1 by blast
  have mono: "eos_reached (decode_loop toy_a req_a [3, 4, 5] ?s1) ! 1"
    using b wf1 i1' e1 by blast
  have mono1: "eos_reached (decode_step toy_a req_a 3 ?s1) ! 1"
    using b wf1 i1' e1 by blast
  have keep: "eos_reached ?s1 ! 0 = eos_reached ?s ! 0" using d wf i0 m0 by blast
  show ?thesis using run wf1 i1' e1 mono mono1 e0 m1 cd ln tk m0 keep fin by blast
qed

lemma init_mask_beyond_prompt:
  assumes "i < length prompts" "length (prompts ! i) \<le> j" "j < n"
  shows "\<not> map (map (\<lambda>x. x \<noteq> int32 pad)) (init_tokens pad n prompts) ! i ! j"
proof -
  have "j < length (init_tokens pad n prompts ! i)" using assms by (simp add: init_tokens_nth)
  moreover have "init_tokens pad n prompts ! i ! j = int32 pad"
    using assms by (simp add: init_tokens_nth nth_append)
  ultimately show ?thesis using assms by simp
qed

text \<open>
  C8. The Input-Text Mask is computed once, as \<open>token \<noteq> pad_id\<close> over the initial
  buffer; neither a step nor any run of the loop changes it. At every point of the loop and
  after it, the mask is false at every column from the row's own prompt length on.
\<close>

theorem input_text_mask_fixed:
  "input_text_mask (decode_step c r cur_pos s) = input_text_mask s \<and>
   input_text_mask (decode_loop c r ps s) = input_text_mask s \<and>
   input_text_mask (decode c ms r) =
     map (map (\<lambda>x. x \<noteq> int32 (pad_id c)))
       (init_tokens (pad_id c) (total_len_of c r) (prompt_tokens r)) \<and>
   (i < length (prompt_tokens r) \<and> length (prompt_tokens r ! i) \<le> j \<and> j < total_len_of c r \<longrightarrow>
      \<not> input_text_mask (decode_loop c r ps (start_state c ms r)) ! i ! j \<and>
      \<not> input_text_mask (decode c ms r) ! i ! j)"
proof -
  let ?m = "map (map (\<lambda>x. x \<noteq> int32 (pad_id c)))
              (init_tokens (pad_id c) (total_len_of c r) (prompt_tokens r))"
  have a: "input_text_mask (decode_step c r cur_pos s) = input_text_mask s" by simp
  have b: "input_text_mask (decode_loop c r ps s) = input_text_mask s" by simp
  have m1: "input_text_mask (decode_loop c r ps (start_state c ms r)) = ?m" by simp
  have m2: "input_text_mask (decode c ms r) = ?m" by (rule decode_mask)
  have d: "i < length (prompt_tokens r) \<and> length (prompt_tokens r ! i) \<le> j \<and>
           j < total_len_of c r \<longrightarrow> \<not> ?m ! i ! j"
    using init_mask_beyond_prompt [of i "prompt_tokens r" j "total_len_of c r" "pad_id c"]
    by blast
  show ?thesis unfolding m1 m2 using a b d by blast
qed

theorem input_text_mask_fixed_witness:
  "0 < temperature req_a \<and> \<not> logprobs req_a \<and> failed (decode toy_a () req_a) = None \<and>
   1 < length (prompt_tokens req_a) \<and> length (prompt_tokens req_a ! 1) \<le> 2 \<and>
   2 < total_len_of toy_a req_a \<and>
   \<not> input_text_mask (decode_loop toy_a req_a [2, 3] (start_state toy_a () req_a)) ! 1 ! 2 \<and>
   \<not> input_text_mask (decode toy_a () req_a) ! 1 ! 2 \<and>
   tokens (decode toy_a () req_a) ! 1 ! 2 = 9 \<and> pad_id toy_a = 0"
proof -
  have run: "0 < temperature req_a \<and> \<not> logprobs req_a \<and> failed (decode toy_a () req_a) = None"
    by code_simp
  have i: "1 < length (prompt_tokens req_a)" by code_simp
  have l: "length (prompt_tokens req_a ! 1) \<le> 2" by code_simp
  have j: "2 < total_len_of toy_a req_a" by code_simp
  have t: "tokens (decode toy_a () req_a) ! 1 ! 2 = 9" by code_simp
  have p: "pad_id toy_a = 0" by code_simp
  note a = input_text_mask_fixed [where c = toy_a and r = req_a and i = 1 and j = 2
      and ps = "[2, 3]" and ms = "()"]
  show ?thesis using a run i l j t p by blast
qed

lemma pad_cell_unmasked:
  assumes "i < length (prompt_tokens r)" "j < length (prompt_tokens r ! i)"
    and "prompt_tokens r ! i ! j = pad_id c"
  shows "\<not> input_text_mask (start_state c ms r) ! i ! j"
proof -
  have "j < length (init_tokens (pad_id c) (total_len_of c r) (prompt_tokens r) ! i)"
    using assms by (simp add: init_tokens_nth)
  moreover have "init_tokens (pad_id c) (total_len_of c r) (prompt_tokens r) ! i ! j =
                   int32 (pad_id c)"
    using assms by (simp add: init_tokens_nth nth_append)
  ultimately show ?thesis using assms by simp
qed

text \<open>
  C9. A \<open>pad_id\<close> inside a prompt's own length is treated as a generated position: at any
  point of the loop its mask is false, a sampling step at its column overwrites it with the
  candidate token, and the stop-token test of a completed step applies to that candidate.
  Run B is such a batch: the pad token at column 1 of the second prompt is replaced by the
  sampled token 1, which is a stop token and stops the row. So prompts are preserved only
  when they are free of \<open>pad_id\<close>.
\<close>

theorem pad_in_prompt_is_overwritten:
  "(i < length (prompt_tokens r) \<and> j < length (prompt_tokens r ! i) \<and>
    prompt_tokens r ! i ! j = pad_id c \<longrightarrow>
      \<not> input_text_mask (decode_loop c r ps (start_state c ms r)) ! i ! j \<and>
      (0 < temperature r \<longrightarrow>
         tokens (decode_step c r j (decode_loop c r ps (start_state c ms r))) ! i ! j =
           candidates c r j (decode_loop c r ps (start_state c ms r)) ! i) \<and>
      (0 < temperature r \<and> \<not> logprobs r \<longrightarrow>
         (eos_reached (decode_step c r j (decode_loop c r ps (start_state c ms r))) ! i \<longleftrightarrow>
            eos_reached (decode_loop c r ps (start_state c ms r)) ! i \<or>
            candidates c r j (decode_loop c r ps (start_state c ms r)) ! i
              \<in> set (stop_tokens c)))) \<and>
   (prompt_tokens req_b ! 1 ! 1 = pad_id toy_b \<and> 0 < temperature req_b \<and>
    \<not> logprobs req_b \<and> failed (decode toy_b () req_b) = None \<and>
    tokens (start_state toy_b () req_b) ! 1 = [5, 0, 6, 0] \<and>
    candidates toy_b req_b 1 (start_state toy_b () req_b) ! 1 = 1 \<and>
    tokens (decode toy_b () req_b) ! 1 = [5, 1, 6, 0] \<and>
    eos_reached (start_state toy_b () req_b) ! 1 = False \<and>
    eos_reached (decode toy_b () req_b) ! 1 = True)"
proof -
  let ?s = "decode_loop c r ps (start_state c ms r)"
  have wf: "wf_state ?s" by (intro wf_decode_loop wf_start_state)
  have gen: "\<not> input_text_mask ?s ! i ! j \<and>
      (0 < temperature r \<longrightarrow> tokens (decode_step c r j ?s) ! i ! j = candidates c r j ?s ! i) \<and>
      (0 < temperature r \<and> \<not> logprobs r \<longrightarrow>
        (eos_reached (decode_step c r j ?s) ! i \<longleftrightarrow>
           eos_reached ?s ! i \<or> candidates c r j ?s ! i \<in> set (stop_tokens c)))"
    if i: "i < length (prompt_tokens r)" and j: "j < length (prompt_tokens r ! i)"
      and p: "prompt_tokens r ! i ! j = pad_id c"
  proof -
    have m0: "\<not> input_text_mask (start_state c ms r) ! i ! j"
      using i j p by (rule pad_cell_unmasked)
    have meq: "input_text_mask ?s = input_text_mask (start_state c ms r)"
      by (rule decode_loop_mask)
    have m: "\<not> input_text_mask ?s ! i ! j" unfolding meq by (rule m0)
    have il: "i < length (tokens ?s)" using i by simp
    have jl: "j < length (tokens ?s ! i)"
      using i j by (simp add: length_decode_loop_row init_tokens_nth)
    have t: "0 < temperature r \<longrightarrow>
               tokens (decode_step c r j ?s) ! i ! j = candidates c r j ?s ! i"
      using decode_step_cell_unmasked [OF wf il jl m] by blast
    have e: "0 < temperature r \<and> \<not> logprobs r \<longrightarrow>
        (eos_reached (decode_step c r j ?s) ! i \<longleftrightarrow>
           eos_reached ?s ! i \<or> candidates c r j ?s ! i \<in> set (stop_tokens c))"
      using m decode_step_eos_nth [OF wf il, where cur_pos = j and c = c and r = r] by blast
    show ?thesis using m t e by blast
  qed
  have run: "prompt_tokens req_b ! 1 ! 1 = pad_id toy_b \<and> 0 < temperature req_b \<and>
    \<not> logprobs req_b \<and> failed (decode toy_b () req_b) = None \<and>
    tokens (start_state toy_b () req_b) ! 1 = [5, 0, 6, 0] \<and>
    candidates toy_b req_b 1 (start_state toy_b () req_b) ! 1 = 1 \<and>
    tokens (decode toy_b () req_b) ! 1 = [5, 1, 6, 0] \<and>
    eos_reached (start_state toy_b () req_b) ! 1 = False \<and>
    eos_reached (decode toy_b () req_b) ! 1 = True"
    by code_simp
  show ?thesis using gen run by blast
qed

theorem pad_in_prompt_is_overwritten_witness:
  "1 < length (prompt_tokens req_b) \<and> 1 < length (prompt_tokens req_b ! 1) \<and>
   prompt_tokens req_b ! 1 ! 1 = pad_id toy_b \<and>
   0 < temperature req_b \<and> \<not> logprobs req_b \<and>
   \<not> input_text_mask (decode_loop toy_b req_b [] (start_state toy_b () req_b)) ! 1 ! 1 \<and>
   tokens (decode_step toy_b req_b 1 (decode_loop toy_b req_b [] (start_state toy_b () req_b))) ! 1 ! 1 =
     candidates toy_b req_b 1 (decode_loop toy_b req_b [] (start_state toy_b () req_b)) ! 1 \<and>
   candidates toy_b req_b 1 (decode_loop toy_b req_b [] (start_state toy_b () req_b)) ! 1
     \<in> set (stop_tokens toy_b) \<and>
   eos_reached (decode_step toy_b req_b 1 (decode_loop toy_b req_b [] (start_state toy_b () req_b))) ! 1"
proof -
  have i: "1 < length (prompt_tokens req_b)" by code_simp
  have j: "1 < length (prompt_tokens req_b ! 1)" by code_simp
  have p: "prompt_tokens req_b ! 1 ! 1 = pad_id toy_b" by code_simp
  have tp: "0 < temperature req_b" by code_simp
  have lp: "\<not> logprobs req_b" by code_simp
  have cd: "candidates toy_b req_b 1 (decode_loop toy_b req_b [] (start_state toy_b () req_b)) ! 1
     \<in> set (stop_tokens toy_b)" by code_simp
  note t = pad_in_prompt_is_overwritten [where c = toy_b and r = req_b and i = 1 and j = 1
      and ps = "[]" and ms = "()"]
  show ?thesis using t i j p tp lp cd by blast
qed

lemma loop_state_unmasked_past_prompt:
  assumes "i < length (prompt_tokens r)" "length (prompt_tokens r ! i) \<le> j" "j < total_len_of c r"
  shows "\<not> input_text_mask (decode_loop c r ps (start_state c ms r)) ! i ! j"
    and "j < length (tokens (decode_loop c r ps (start_state c ms r)) ! i)"
proof -
  show "\<not> input_text_mask (decode_loop c r ps (start_state c ms r)) ! i ! j"
    unfolding decode_loop_mask start_state_fields
    by (rule init_mask_beyond_prompt [OF assms])
  have "i < length (tokens (start_state c ms r))" using assms(1) by simp
  then have "length (tokens (decode_loop c r ps (start_state c ms r)) ! i) =
               length (tokens (start_state c ms r) ! i)"
    by (rule length_decode_loop_row)
  also have "\<dots> = length (prompt_tokens r ! i) + (total_len_of c r - length (prompt_tokens r ! i))"
    using assms(1) by (simp add: init_tokens_nth)
  finally show "j < length (tokens (decode_loop c r ps (start_state c ms r)) ! i)"
    using assms by simp
qed

text \<open>A row that is stopped in a state the loop reaches was stopped by a sampling step.\<close>

lemma reached_stop_is_sampled:
  assumes "i < length (prompt_tokens r)"
    and "eos_reached (decode_loop c r ps (start_state c ms r)) ! i"
  shows "0 < temperature r \<and> \<not> logprobs r"
proof -
  have "i < length (tokens (start_state c ms r))" using assms(1) by simp
  from decode_loop_eos_origin [OF wf_start_state this assms(2)]
  show ?thesis using assms(1) by simp
qed

lemma candidates_nth:
  "i < length (softmax_last c (fst (execute c (mstate s) (span_of s cur_pos) (prev_pos s)))
                 (temperature r)) \<Longrightarrow>
   candidates c r cur_pos s ! i =
     int32 (int (sample_top_p_row (rand c cur_pos ! i)
       (softmax_last c (fst (execute c (mstate s) (span_of s cur_pos) (prev_pos s)))
          (temperature r) ! i) (top_p r)))"
  by (simp add: candidates_def sampled_def sample_top_p_def)



subsection \<open>The checks and the output of \<^verbatim>\<open>generate\<close>\<close>

lemma calls_prime: "calls (prime c s) = calls s @ [(tokens s, prev_pos s)]"
  by (simp add: prime_def split: prod.split)

lemma calls_decode_loop_mono: "length (calls s) \<le> length (calls (decode_loop c r ps s))"
proof (induction ps arbitrary: s)
  case Nil
  show ?case by simp
next
  case (Cons cur_pos rest)
  let ?s' = "decode_step c r cur_pos s"
  have step: "length (calls s) \<le> length (calls ?s')"
    by (simp add: decode_step_calls)
  show ?case
  proof (cases "failed ?s' \<noteq> None \<or> list_all (\<lambda>b. b) (eos_reached ?s')")
    case True
    then have "decode_loop c r (cur_pos # rest) s = ?s'" by (auto simp add: Let_def)
    with step show ?thesis by simp
  next
    case False
    then have "decode_loop c r (cur_pos # rest) s = decode_loop c r rest ?s'"
      by (auto simp add: Let_def)
    with step Cons.IH [of ?s'] show ?thesis by simp
  qed
qed

lemma calls_decode_loop_grow:
  assumes "ps \<noteq> []"
  shows "length (calls s) < length (calls (decode_loop c r ps s))"
proof -
  from assms obtain cur_pos rest where ps: "ps = cur_pos # rest" by (cases ps) auto
  let ?s' = "decode_step c r cur_pos s"
  have step: "length (calls s) < length (calls ?s')"
    by (simp add: decode_step_calls)
  show ?thesis
  proof (cases "failed ?s' \<noteq> None \<or> list_all (\<lambda>b. b) (eos_reached ?s')")
    case True
    then have "decode_loop c r ps s = ?s'" by (auto simp add: ps Let_def)
    with step show ?thesis by simp
  next
    case False
    then have "decode_loop c r ps s = decode_loop c r rest ?s'"
      by (auto simp add: ps Let_def)
    with step calls_decode_loop_mono [of ?s' c r rest] show ?thesis by simp
  qed
qed

lemma min_prompt_le_total:
  assumes ne: "prompt_tokens r \<noteq> []"
    and le: "list_all (\<lambda>t. length t \<le> max_seq_len c) (prompt_tokens r)"
  shows "min_prompt_len_of r \<le> total_len_of c r"
proof -
  let ?L = "set (map length (prompt_tokens r))"
  have fin: "finite ?L" and nem: "?L \<noteq> {}" using ne by simp_all
  have mm: "Min ?L \<le> Max ?L" using fin nem by simp
  have "Max ?L \<in> ?L" using fin nem by (rule Max_in)
  then have "Max ?L \<le> max_seq_len c" using le by (auto simp: list_all_iff)
  with mm show ?thesis by (simp add: min_prompt_len_of_def total_len_of_def)
qed

lemma decode_calls_nonempty:
  assumes ne: "prompt_tokens r \<noteq> []"
    and le: "list_all (\<lambda>t. length t \<le> max_seq_len c) (prompt_tokens r)"
  shows "calls (decode c ms r) \<noteq> []"
proof (cases "min_prompt_len_of r = total_len_of c r")
  case True
  have "0 < length (calls (start_state c ms r))"
    using True by (simp add: start_state_def calls_prime)
  also have "\<dots> \<le> length (calls (decode c ms r))"
    unfolding decode_alt by (rule calls_decode_loop_mono)
  finally show ?thesis by auto
next
  case False
  with min_prompt_le_total [OF ne le]
  have "[min_prompt_len_of r..<total_len_of c r] \<noteq> []" by simp
  then have "length (calls (start_state c ms r)) < length (calls (decode c ms r))"
    unfolding decode_alt by (rule calls_decode_loop_grow)
  then show ?thesis by auto
qed

lemma Max_le_list_all:
  "xs \<noteq> [] \<Longrightarrow> Max (set (map length xs)) \<le> n \<longleftrightarrow> list_all (\<lambda>t. length t \<le> n) xs"
  by (simp add: list_all_iff)

lemma generate_accepted:
  assumes "length (prompt_tokens r) \<le> max_batch_size c" and "prompt_tokens r \<noteq> []"
    and "list_all (\<lambda>t. length t \<le> max_seq_len c) (prompt_tokens r)"
  shows "generate c ms r =
           (calls (decode c ms r),
            case failed (decode c ms r) of
              Some e \<Rightarrow> Inl e
            | None \<Rightarrow> Inr (post_process (stop_tokens c) r (decode c ms r)))"
  using assms by (simp add: generate_def Max_le_list_all Let_def del: Max_le_iff set_map)

text \<open>
  C4 (as amended). \<^verbatim>\<open>generate\<close> checks that the batch size is at most
  \<^verbatim>\<open>max_batch_size\<close> and that no prompt is longer than \<^verbatim>\<open>max_seq_len\<close>, and an
  empty batch fails when the minimum prompt length is taken; each of these violations
  fails before any call to the model. The length of a prompt is not checked from below:
  every non-empty batch that passes the two checks reaches the model.
\<close>

theorem generate_checks:
  "(max_batch_size c < length (prompt_tokens r) \<longrightarrow>
      generate c ms r = ([], Inl AssertionError)) \<and>
   (prompt_tokens r = [] \<longrightarrow> generate c ms r = ([], Inl ValueError)) \<and>
   (length (prompt_tokens r) \<le> max_batch_size c \<and> prompt_tokens r \<noteq> [] \<and>
    \<not> list_all (\<lambda>t. length t \<le> max_seq_len c) (prompt_tokens r) \<longrightarrow>
      generate c ms r = ([], Inl AssertionError)) \<and>
   (length (prompt_tokens r) \<le> max_batch_size c \<and> prompt_tokens r \<noteq> [] \<and>
    list_all (\<lambda>t. length t \<le> max_seq_len c) (prompt_tokens r) \<longrightarrow>
      fst (generate c ms r) \<noteq> [] \<and> fst (generate c ms r) = calls (decode c ms r))"
proof (intro conjI impI)
  assume "max_batch_size c < length (prompt_tokens r)"
  then show "generate c ms r = ([], Inl AssertionError)" by (simp add: generate_def)
next
  assume "prompt_tokens r = []"
  then show "generate c ms r = ([], Inl ValueError)" by (simp add: generate_def)
next
  assume "length (prompt_tokens r) \<le> max_batch_size c \<and> prompt_tokens r \<noteq> [] \<and>
    \<not> list_all (\<lambda>t. length t \<le> max_seq_len c) (prompt_tokens r)"
  then show "generate c ms r = ([], Inl AssertionError)"
    by (simp add: generate_def Max_le_list_all del: Max_le_iff set_map)
next
  assume a: "length (prompt_tokens r) \<le> max_batch_size c \<and> prompt_tokens r \<noteq> [] \<and>
    list_all (\<lambda>t. length t \<le> max_seq_len c) (prompt_tokens r)"
  then show g: "fst (generate c ms r) = calls (decode c ms r)"
    by (simp add: generate_accepted)
  from a have "calls (decode c ms r) \<noteq> []" by (intro decode_calls_nonempty) simp_all
  then show "fst (generate c ms r) \<noteq> []" by (simp add: g)
qed

theorem generate_checks_witness:
  "max_batch_size toy_a < length (prompt_tokens (req [[1], [1], [1], [1], [1]] 1 (6 / 10) False False)) \<and>
   generate toy_a () (req [[1], [1], [1], [1], [1]] 1 (6 / 10) False False) = ([], Inl AssertionError) \<and>
   prompt_tokens (req [] 1 (6 / 10) False False) = [] \<and>
   generate toy_a () (req [] 1 (6 / 10) False False) = ([], Inl ValueError) \<and>
   length (prompt_tokens (req [[1, 2, 3, 4, 5, 6, 7, 8, 9]] 1 (6 / 10) False False)) \<le> max_batch_size toy_a \<and>
   prompt_tokens (req [[1, 2, 3, 4, 5, 6, 7, 8, 9]] 1 (6 / 10) False False) \<noteq> [] \<and>
   \<not> list_all (\<lambda>t. length t \<le> max_seq_len toy_a)
        (prompt_tokens (req [[1, 2, 3, 4, 5, 6, 7, 8, 9]] 1 (6 / 10) False False)) \<and>
   generate toy_a () (req [[1, 2, 3, 4, 5, 6, 7, 8, 9]] 1 (6 / 10) False False) = ([], Inl AssertionError) \<and>
   length (prompt_tokens req_a) \<le> max_batch_size toy_a \<and> prompt_tokens req_a \<noteq> [] \<and>
   list_all (\<lambda>t. length t \<le> max_seq_len toy_a) (prompt_tokens req_a) \<and>
   fst (generate toy_a () req_a) \<noteq> [] \<and>
   fst (generate toy_a () req_a) = calls (decode toy_a () req_a) \<and>
   generate toy_a () req_a =
     ([([[1, 2], [1, 2]], 0), ([[3], [9]], 2), ([[7], [5]], 3), ([[7], [6]], 4)],
      Inr ([[7, 7, 7], []], None))"
proof -
  let ?r1 = "req [[1], [1], [1], [1], [1]] 1 (6 / 10) False False"
  let ?r2 = "req [] 1 (6 / 10) False False"
  let ?r3 = "req [[1, 2, 3, 4, 5, 6, 7, 8, 9]] 1 (6 / 10) False False"
  have h1: "max_batch_size toy_a < length (prompt_tokens ?r1)" by code_simp
  have h2: "prompt_tokens ?r2 = []" by code_simp
  have h3: "length (prompt_tokens ?r3) \<le> max_batch_size toy_a" by code_simp
  have h4: "prompt_tokens ?r3 \<noteq> []" by code_simp
  have h5: "\<not> list_all (\<lambda>t. length t \<le> max_seq_len toy_a) (prompt_tokens ?r3)" by code_simp
  have h6: "length (prompt_tokens req_a) \<le> max_batch_size toy_a" by code_simp
  have h7: "prompt_tokens req_a \<noteq> []" by code_simp
  have h8: "list_all (\<lambda>t. length t \<le> max_seq_len toy_a) (prompt_tokens req_a)" by code_simp
  have v: "generate toy_a () req_a =
     ([([[1, 2], [1, 2]], 0), ([[3], [9]], 2), ([[7], [5]], 3), ([[7], [6]], 4)],
      Inr ([[7, 7, 7], []], None))" by code_simp
  note t1 = generate_checks [where c = toy_a and r = ?r1 and ms = "()"]
  note t2 = generate_checks [where c = toy_a and r = ?r2 and ms = "()"]
  note t3 = generate_checks [where c = toy_a and r = ?r3 and ms = "()"]
  note t4 = generate_checks [where c = toy_a and r = req_a and ms = "()"]
  have c1: "generate toy_a () ?r1 = ([], Inl AssertionError)" using t1 h1 by blast
  have c2: "generate toy_a () ?r2 = ([], Inl ValueError)" using t2 h2 by blast
  have c3: "generate toy_a () ?r3 = ([], Inl AssertionError)" using t3 h3 h4 h5 by blast
  have c4: "fst (generate toy_a () req_a) \<noteq> [] \<and>
     fst (generate toy_a () req_a) = calls (decode toy_a () req_a)"
    using t4 h6 h7 h8 by blast
  show ?thesis using h1 c1 h2 c2 h3 h4 h5 c3 h6 h7 h8 c4 v by blast
qed

text \<open>
  The claim as stated fails for a prompt of length 0: it violates the precondition, yet
  the model is called on the empty span and an output is returned.
\<close>

theorem empty_prompt_counterexample:
  "\<not> spec_precondition toy_a (req [[]] 1 (6 / 10) False False) \<and>
   0 < temperature (req [[]] 1 (6 / 10) False False) \<and>
   \<not> logprobs (req [[]] 1 (6 / 10) False False) \<and>
   generate toy_a () (req [[]] 1 (6 / 10) False False) = ([([[]], 0)], Inr ([[0]], None))"
  by code_simp

lemma fst_spec_truncate:
  "fst (spec_truncate stops toks probs) = takeWhile (\<lambda>t. t \<notin> set stops) toks"
  by (simp add: cut_at_stops_spec [symmetric] cut_at_stops_takeWhile Let_def take_length_takeWhile)

lemma post_process_nth:
  "i < length (tokens s) \<Longrightarrow>
     fst (post_process stops r s) ! i =
       fst (spec_trim_row stops r (prompt_tokens r ! i) (tokens s ! i) (token_logprobs s ! i))"
  by (simp add: post_process_def trim_row_spec Let_def)

lemma trimmed_no_echo:
  assumes "\<not> echo r"
  shows "prefix (fst (spec_trim_row stops r prompt toks lps)) (drop (length prompt) toks)"
proof -
  let ?stop = "min (length prompt + max_gen_len r) (length toks)"
  have "fst (spec_trim_row stops r prompt toks lps) =
          takeWhile (\<lambda>t. t \<notin> set stops) (drop (length prompt) (take ?stop toks))"
    using assms by (simp add: spec_trim_row_def fst_spec_truncate Let_def)
  moreover have "prefix (takeWhile (\<lambda>t. t \<notin> set stops) (drop (length prompt) (take ?stop toks)))
                   (drop (length prompt) (take ?stop toks))"
    by (rule takeWhile_is_prefix)
  moreover have "prefix (drop (length prompt) (take ?stop toks)) (drop (length prompt) toks)"
    by (simp add: drop_take take_is_prefix)
  ultimately show ?thesis by (simp only: prefix_order.trans)
qed

lemma trimmed_echo_prefix:
  assumes "echo r"
  shows "prefix (fst (spec_trim_row stops r prompt toks lps)) toks"
proof -
  let ?stop = "min (length prompt + max_gen_len r) (length toks)"
  have "fst (spec_trim_row stops r prompt toks lps) =
          takeWhile (\<lambda>t. t \<notin> set stops) (take ?stop toks)"
    using assms by (simp add: spec_trim_row_def fst_spec_truncate Let_def)
  moreover have "prefix (takeWhile (\<lambda>t. t \<notin> set stops) (take ?stop toks)) (take ?stop toks)"
    by (rule takeWhile_is_prefix)
  moreover have "prefix (take ?stop toks) toks" by (rule take_is_prefix)
  ultimately show ?thesis by (simp only: prefix_order.trans)
qed

lemma trimmed_echo_prompt:
  assumes e: "echo r" and p: "take (length prompt) toks = prompt"
    and ns: "set prompt \<inter> set stops = {}"
  shows "prefix prompt (fst (spec_trim_row stops r prompt toks lps))"
proof -
  let ?stop = "min (length prompt + max_gen_len r) (length toks)"
  let ?rest = "drop (length prompt) toks"
  have toks: "toks = prompt @ ?rest" using p by (metis append_take_drop_id)
  have len: "length prompt \<le> length toks" using p by (metis length_take min.cobounded1)
  have "take ?stop toks = take ?stop (prompt @ ?rest)" using toks by simp
  also have "\<dots> = prompt @ take (?stop - length prompt) ?rest" using len by simp
  finally have sl: "take ?stop toks = prompt @ take (?stop - length prompt) ?rest" .
  have all: "\<And>t. t \<in> set prompt \<Longrightarrow> t \<notin> set stops" using ns by blast
  have "fst (spec_trim_row stops r prompt toks lps) =
          takeWhile (\<lambda>t. t \<notin> set stops) (take ?stop toks)"
    using e by (simp add: spec_trim_row_def fst_spec_truncate Let_def)
  also have "\<dots> = prompt @ takeWhile (\<lambda>t. t \<notin> set stops) (take (?stop - length prompt) ?rest)"
    unfolding sl using all by (rule takeWhile_append2)
  finally show ?thesis by simp
qed

lemma generate_Inr:
  "generate c ms r = (cs, Inr out) \<Longrightarrow> out = post_process (stop_tokens c) r (decode c ms r)"
  by (auto simp add: generate_def Let_def split: if_splits option.splits)

text \<open>
  C5 (as amended). Without echo the returned row is a prefix of the buffer row from the
  row's own prompt length on, so it holds no token from a position before the end of the
  prompt. With echo the returned row is a prefix of the buffer row, and it starts with the
  complete prompt when the prompt contains neither \<open>pad_id\<close> nor a stop token and its
  tokens and \<open>pad_id\<close> lie within the 32-bit range of the buffer.
\<close>

theorem echo_and_trim_origin:
  "generate c ms r = (cs, Inr (outs, lps)) \<and> i < length (prompt_tokens r) \<longrightarrow>
     (\<not> echo r \<longrightarrow>
        prefix (outs ! i) (drop (length (prompt_tokens r ! i)) (tokens (decode c ms r) ! i))) \<and>
     (echo r \<longrightarrow> prefix (outs ! i) (tokens (decode c ms r) ! i)) \<and>
     (echo r \<and> in_int32 (pad_id c) \<and> list_all in_int32 (prompt_tokens r ! i) \<and>
      pad_id c \<notin> set (prompt_tokens r ! i) \<and>
      set (prompt_tokens r ! i) \<inter> set (stop_tokens c) = {} \<longrightarrow>
        prefix (prompt_tokens r ! i) (outs ! i))"
proof (intro impI conjI)
  assume g: "generate c ms r = (cs, Inr (outs, lps)) \<and> i < length (prompt_tokens r)"
  then have i: "i < length (prompt_tokens r)" by simp
  from g have "(outs, lps) = post_process (stop_tokens c) r (decode c ms r)"
    by (intro generate_Inr) simp
  then have "outs = fst (post_process (stop_tokens c) r (decode c ms r))"
    by (metis fst_conv)
  then have nth: "outs ! i =
       fst (spec_trim_row (stop_tokens c) r (prompt_tokens r ! i) (tokens (decode c ms r) ! i)
              (token_logprobs (decode c ms r) ! i))"
    using i by (simp add: post_process_nth)
  { assume "\<not> echo r"
    then show "prefix (outs ! i)
               (drop (length (prompt_tokens r ! i)) (tokens (decode c ms r) ! i))"
      unfolding nth by (rule trimmed_no_echo) }
  { assume "echo r"
    then show "prefix (outs ! i) (tokens (decode c ms r) ! i)"
      unfolding nth by (rule trimmed_echo_prefix) }
  { assume a: "echo r \<and> in_int32 (pad_id c) \<and> list_all in_int32 (prompt_tokens r ! i) \<and>
      pad_id c \<notin> set (prompt_tokens r ! i) \<and>
      set (prompt_tokens r ! i) \<inter> set (stop_tokens c) = {}"
    have "take (length (prompt_tokens r ! i)) (tokens (decode c ms r) ! i) = prompt_tokens r ! i"
      using i a by (intro decode_keeps_prompt) simp_all
    with a show "prefix (prompt_tokens r ! i) (outs ! i)"
      unfolding nth by (intro trimmed_echo_prompt) simp_all }
qed

theorem echo_and_trim_origin_witness:
  "0 < temperature req_a \<and> \<not> logprobs req_a \<and>
   generate toy_a () req_a =
     ([([[1, 2], [1, 2]], 0), ([[3], [9]], 2), ([[7], [5]], 3), ([[7], [6]], 4)],
      Inr ([[7, 7, 7], []], None)) \<and>
   0 < length (prompt_tokens req_a) \<and> \<not> echo req_a \<and>
   prefix ([[7, 7, 7], []] ! 0)
     (drop (length (prompt_tokens req_a ! 0)) (tokens (decode toy_a () req_a) ! 0)) \<and>
   0 < temperature (req [[1, 2, 3], [1, 2]] 3 (6 / 10) False True) \<and>
   \<not> logprobs (req [[1, 2, 3], [1, 2]] 3 (6 / 10) False True) \<and>
   generate toy_a () (req [[1, 2, 3], [1, 2]] 3 (6 / 10) False True) =
     ([([[1, 2], [1, 2]], 0), ([[3], [9]], 2), ([[7], [5]], 3), ([[7], [6]], 4)],
      Inr ([[1, 2, 3, 7, 7, 7], [1, 2]], None)) \<and>
   1 < length (prompt_tokens (req [[1, 2, 3], [1, 2]] 3 (6 / 10) False True)) \<and>
   echo (req [[1, 2, 3], [1, 2]] 3 (6 / 10) False True) \<and>
   in_int32 (pad_id toy_a) \<and>
   list_all in_int32 (prompt_tokens (req [[1, 2, 3], [1, 2]] 3 (6 / 10) False True) ! 1) \<and>
   pad_id toy_a \<notin> set (prompt_tokens (req [[1, 2, 3], [1, 2]] 3 (6 / 10) False True) ! 1) \<and>
   set (prompt_tokens (req [[1, 2, 3], [1, 2]] 3 (6 / 10) False True) ! 1) \<inter> set (stop_tokens toy_a) = {} \<and>
   prefix ([[1, 2, 3, 7, 7, 7], [1, 2]] ! 1)
     (tokens (decode toy_a () (req [[1, 2, 3], [1, 2]] 3 (6 / 10) False True)) ! 1) \<and>
   prefix (prompt_tokens (req [[1, 2, 3], [1, 2]] 3 (6 / 10) False True) ! 1)
     ([[1, 2, 3, 7, 7, 7], [1, 2]] ! 1)"
proof -
  let ?re = "req [[1, 2, 3], [1, 2]] 3 (6 / 10) False True"
  let ?cs = "[([[1, 2], [1, 2]], 0), ([[3], [9]], 2), ([[7], [5]], 3), ([[7], [6]], 4)]"
  have r1: "0 < temperature req_a \<and> \<not> logprobs req_a" by code_simp
  have r2: "0 < temperature ?re \<and> \<not> logprobs ?re" by code_simp
  have g1: "generate toy_a () req_a = (?cs, Inr ([[7, 7, 7], []], None))" by code_simp
  have i1: "0 < length (prompt_tokens req_a)" by code_simp
  have e1: "\<not> echo req_a" by code_simp
  have g2: "generate toy_a () ?re = (?cs, Inr ([[1, 2, 3, 7, 7, 7], [1, 2]], None))"
    by code_simp
  have i2: "1 < length (prompt_tokens ?re)" by code_simp
  have e2: "echo ?re" by code_simp
  have q1: "in_int32 (pad_id toy_a)" by code_simp
  have q2: "list_all in_int32 (prompt_tokens ?re ! 1)" by code_simp
  have p2: "pad_id toy_a \<notin> set (prompt_tokens ?re ! 1)" by code_simp
  have s2: "set (prompt_tokens ?re ! 1) \<inter> set (stop_tokens toy_a) = {}" by code_simp
  note t1 = echo_and_trim_origin [where c = toy_a and ms = "()" and r = req_a and cs = ?cs
      and outs = "[[7, 7, 7], []]" and lps = None and i = 0]
  note t2 = echo_and_trim_origin [where c = toy_a and ms = "()" and r = ?re and cs = ?cs
      and outs = "[[1, 2, 3, 7, 7, 7], [1, 2]]" and lps = None and i = 1]
  have c1: "prefix ([[7, 7, 7], []] ! 0)
     (drop (length (prompt_tokens req_a ! 0)) (tokens (decode toy_a () req_a) ! 0))"
    using t1 g1 i1 e1 by blast
  have c2: "prefix ([[1, 2, 3, 7, 7, 7], [1, 2]] ! 1) (tokens (decode toy_a () ?re) ! 1) \<and>
     prefix (prompt_tokens ?re ! 1) ([[1, 2, 3, 7, 7, 7], [1, 2]] ! 1)"
    using t2 g2 i2 e2 q1 q2 p2 s2 by blast
  show ?thesis using r1 r2 g1 i1 e1 c1 g2 i2 e2 q1 q2 p2 s2 c2 by blast
qed

text \<open>
  The claim as stated fails for a prompt that contains a stop token: under echo the
  truncation scans the echoed prompt too, and the output \<open>[5]\<close> does not start with the
  prompt \<open>[5, 9, 6]\<close>.
\<close>

theorem echo_prefix_counterexample:
  "echo (req [[5, 9, 6]] 1 (6 / 10) False True) \<and>
   0 < temperature (req [[5, 9, 6]] 1 (6 / 10) False True) \<and>
   \<not> logprobs (req [[5, 9, 6]] 1 (6 / 10) False True) \<and>
   generate toy_a () (req [[5, 9, 6]] 1 (6 / 10) False True) =
     ([([[5, 9, 6]], 0)], Inr ([[5]], None)) \<and>
   \<not> prefix [5, 9, 6] ([[5 :: int]] ! 0)"
  by code_simp

subsection \<open>The nucleus sampler\<close>

lemma length_sort_desc [simp]:
  "length (fst (sort_desc probs)) = length probs" "length (snd (sort_desc probs)) = length probs"
  by (simp_all add: sort_desc_def Let_def)

lemma sort_desc_descending: "sorted_wrt (\<lambda>x y. x \<ge> y) (fst (sort_desc probs))"
proof -
  let ?ps = "sort_key (\<lambda>ix. - snd ix) (zip [0..<length probs] probs)"
  have "sorted (map (\<lambda>ix. - snd ix) ?ps)" by (rule sorted_sort_key)
  then have "sorted_wrt (\<lambda>a b. - snd a \<le> - snd b) ?ps" by (simp add: sorted_wrt_map)
  then have "sorted_wrt (\<lambda>x y. x \<ge> y) (map snd ?ps)" by (simp add: sorted_wrt_map)
  then show ?thesis by (simp add: sort_desc_def Let_def)
qed

lemma sort_desc_perm: "mset (snd (sort_desc probs)) = mset [0..<length probs]"
proof -
  let ?z = "zip [0..<length probs] probs"
  have "mset (map fst (sort_key (\<lambda>ix. - snd ix) ?z)) = mset (map fst ?z)"
    by (simp only: mset_map mset_sort)
  moreover have "map fst ?z = [0..<length probs]" by simp
  ultimately have "mset (map fst (sort_key (\<lambda>ix. - snd ix) ?z)) = mset [0..<length probs]"
    by (simp only:)
  then show ?thesis by (simp only: sort_desc_def Let_def snd_conv)
qed

lemma sort_desc_index:
  assumes "j < length probs"
  shows "snd (sort_desc probs) ! j < length probs \<and>
         fst (sort_desc probs) ! j = probs ! (snd (sort_desc probs) ! j)"
proof -
  let ?z = "zip [0..<length probs] probs"
  let ?ps = "sort_key (\<lambda>ix. - snd ix) ?z"
  have len: "length ?ps = length probs" by simp
  then have "?ps ! j \<in> set ?ps" using assms by (metis nth_mem)
  then have "?ps ! j \<in> set ?z" by simp
  then obtain k where k: "k < length ?z" "?z ! k = ?ps ! j" by (metis in_set_conv_nth)
  then have "fst (?ps ! j) = k \<and> snd (?ps ! j) = probs ! k \<and> k < length probs"
    by (metis (no_types, lifting) add_0 fst_conv length_map length_upt map_fst_zip
        minus_nat.diff_0 nth_upt nth_zip snd_conv length_zip min_less_iff_conj)
  then show ?thesis using assms len by (simp add: sort_desc_def Let_def)
qed

lemma set_fst_sort_desc: "set (fst (sort_desc probs)) = set probs"
proof -
  let ?z = "zip [0..<length probs] probs"
  have "set (map snd (sort_key (\<lambda>ix. - snd ix) ?z)) = set (map snd ?z)"
    by (simp only: set_map set_sort)
  moreover have "map snd ?z = probs" by simp
  ultimately have "set (map snd (sort_key (\<lambda>ix. - snd ix) ?z)) = set probs"
    by (simp only:)
  then show ?thesis by (simp only: sort_desc_def Let_def fst_conv)
qed

lemma sort_desc_hd:
  assumes "probs \<noteq> []"
  shows "fst (sort_desc probs) ! 0 = Max (set probs)"
proof -
  let ?vs = "fst (sort_desc probs)"
  have ne: "?vs \<noteq> []" using assms by (metis length_0_conv length_sort_desc(1))
  have mem: "?vs ! 0 \<in> set probs"
    using ne by (metis set_fst_sort_desc length_greater_0_conv nth_mem)
  have "\<And>y. y \<in> set probs \<Longrightarrow> y \<le> ?vs ! 0"
  proof -
    fix y assume "y \<in> set probs"
    then have "y \<in> set ?vs" by (simp add: set_fst_sort_desc)
    then obtain k where k: "k < length ?vs" "?vs ! k = y" by (metis in_set_conv_nth)
    show "y \<le> ?vs ! 0"
    proof (cases k)
      case 0
      with k show ?thesis by simp
    next
      case (Suc k')
      then have "0 < k" by simp
      with sort_desc_descending [of probs] k show ?thesis
        by (auto simp: sorted_wrt_iff_nth_less)
    qed
  qed
  then show ?thesis using mem by (intro Max_eqI [symmetric]) simp_all
qed

lemma length_cumsum_from [simp]: "length (cumsum_from acc xs) = length xs"
  by (induction xs arbitrary: acc) simp_all

lemma cumsum_from_nth:
  "j < length xs \<Longrightarrow> cumsum_from acc xs ! j = acc + sum_list (take (Suc j) xs)"
proof (induction xs arbitrary: acc j)
  case Nil
  then show ?case by simp
next
  case (Cons x xs)
  then show ?case by (cases j) (simp_all add: add.assoc)
qed

lemma weights_from_Nil [simp]: "weights_from p acc [] = []"
  by (simp add: weights_from_def masked_fill_def)

lemma weights_from_Cons [simp]:
  "weights_from p acc (x # xs) = (if acc > p then 0 else x) # weights_from p (acc + x) xs"
  by (simp add: weights_from_def masked_fill_def)

lemma length_weights_from [simp]: "length (weights_from p acc xs) = length xs"
  by (induction xs arbitrary: acc) simp_all

lemma weights_from_nth:
  "j < length xs \<Longrightarrow>
     weights_from p acc xs ! j = (if acc + sum_list (take j xs) > p then 0 else xs ! j)"
proof (induction xs arbitrary: acc j)
  case Nil
  then show ?case by simp
next
  case (Cons x xs)
  then show ?case by (cases j) (simp_all add: add.assoc)
qed

lemma weights_from_all_masked:
  "p < acc \<Longrightarrow> list_all (\<lambda>x. 0 \<le> x) xs \<Longrightarrow> weights_from p acc xs = replicate (length xs) 0"
proof (induction xs arbitrary: acc)
  case Nil
  then show ?case by simp
next
  case (Cons x xs)
  then have "p < acc + x" by simp
  with Cons show ?case by simp
qed

lemma prefix_exceeding_le: "prefix_exceeding p acc xs \<le> length xs"
  by (induction xs arbitrary: acc) simp_all

lemma prefix_exceeding_pos: "xs \<noteq> [] \<Longrightarrow> 1 \<le> prefix_exceeding p acc xs"
  by (cases xs) simp_all

lemma weights_from_prefix:
  "acc \<le> p \<Longrightarrow> list_all (\<lambda>x. 0 \<le> x) xs \<Longrightarrow>
     weights_from p acc xs =
       take (prefix_exceeding p acc xs) xs @ replicate (length xs - prefix_exceeding p acc xs) 0"
proof (induction xs arbitrary: acc)
  case Nil
  then show ?case by simp
next
  case (Cons x xs)
  show ?case
  proof (cases "acc + x > p")
    case True
    with Cons.prems show ?thesis by (simp add: weights_from_all_masked)
  next
    case False
    then have "acc + x \<le> p" by simp
    with Cons show ?thesis by simp
  qed
qed

text \<open>Every shorter prefix stays within the threshold; the kept prefix exceeds it or is the whole row.\<close>

lemma prefix_exceeding_shorter:
  "acc \<le> p \<Longrightarrow> j < prefix_exceeding p acc xs \<Longrightarrow> acc + sum_list (take j xs) \<le> p"
proof (induction xs arbitrary: acc j)
  case Nil
  then show ?case by simp
next
  case (Cons x xs)
  show ?case
  proof (cases j)
    case 0
    with Cons.prems show ?thesis by simp
  next
    case (Suc j')
    show ?thesis
    proof (cases "acc + x > p")
      case True
      with Cons.prems Suc show ?thesis by simp
    next
      case False
      then have le: "acc + x \<le> p" by simp
      from Cons.prems Suc False have "j' < prefix_exceeding p (acc + x) xs" by simp
      from Cons.IH [OF le this] Suc show ?thesis by (simp add: add.assoc)
    qed
  qed
qed

lemma prefix_exceeding_exceeds:
  "prefix_exceeding p acc xs = length xs \<or>
   p < acc + sum_list (take (prefix_exceeding p acc xs) xs)"
proof (induction xs arbitrary: acc)
  case Nil
  then show ?case by simp
next
  case (Cons x xs)
  show ?case
  proof (cases "acc + x > p")
    case True
    then show ?thesis by simp
  next
    case False
    with Cons.IH [of "acc + x"] show ?thesis by (auto simp add: add.assoc)
  qed
qed

lemma top_p_weights_eq:
  "top_p_weights probs p = weights_from p 0 (fst (sort_desc probs))"
  by (simp add: top_p_weights_def weights_from_def top_p_mask_def cumsum_def Let_def
      split: prod.split)

lemma top_p_mask_nth:
  "j < length vs \<Longrightarrow> top_p_mask vs p ! j \<longleftrightarrow> p < cumsum vs ! j - vs ! j"
  by (simp add: top_p_mask_def cumsum_def)

lemma cumsum_minus_self:
  "j < length vs \<Longrightarrow> cumsum vs ! j - vs ! j = sum_list (take j vs)"
  by (simp add: cumsum_def cumsum_from_nth take_Suc_conv_app_nth)

text \<open>The draw returns index 0 or an index of positive weight.\<close>

lemma draw_from_positive:
  "draw_from r acc i ws = m \<Longrightarrow> m = 0 \<or> (i \<le> m \<and> m < i + length ws \<and> 0 < ws ! (m - i))"
proof (induction ws arbitrary: acc i)
  case Nil
  then show ?case by simp
next
  case (Cons w ws)
  show ?case
  proof (cases "acc < r \<and> r \<le> acc + w")
    case True
    with Cons.prems have "m = i" by simp
    moreover from True have "0 < w" by simp
    ultimately show ?thesis by simp
  next
    case False
    with Cons.prems have "draw_from r (acc + w) (Suc i) ws = m" by simp
    from Cons.IH [OF this] show ?thesis by (auto simp: Suc_diff_le)
  qed
qed

lemma multinomial_positive:
  "multinomial u ws = 0 \<or> (multinomial u ws < length ws \<and> 0 < ws ! multinomial u ws)"
  using draw_from_positive [of "u * sum_list ws" 0 0 ws "multinomial u ws"]
  by (auto simp add: multinomial_def)

lemma draw_in_kept_prefix:
  assumes ne: "probs \<noteq> []" and nn: "list_all (\<lambda>x. 0 \<le> x) probs" and p: "0 \<le> p"
  shows "multinomial u (top_p_weights probs p) < prefix_exceeding p 0 (fst (sort_desc probs))"
proof -
  let ?vs = "fst (sort_desc probs)"
  let ?k = "prefix_exceeding p 0 ?vs"
  let ?ws = "top_p_weights probs p"
  let ?m = "multinomial u ?ws"
  have vne: "?vs \<noteq> []" using ne by (metis length_0_conv length_sort_desc(1))
  have vnn: "list_all (\<lambda>x. 0 \<le> x) ?vs" using nn by (simp add: list_all_iff set_fst_sort_desc)
  have k1: "1 \<le> ?k" using vne by (rule prefix_exceeding_pos)
  have ws: "?ws = take ?k ?vs @ replicate (length ?vs - ?k) 0"
    unfolding top_p_weights_eq using p vnn by (rule weights_from_prefix)
  have kl: "?k \<le> length ?vs" by (rule prefix_exceeding_le)
  from multinomial_positive [of u ?ws] show ?thesis
  proof
    assume "?m = 0"
    with k1 show ?thesis by simp
  next
    assume a: "?m < length ?ws \<and> 0 < ?ws ! ?m"
    show ?thesis
    proof (rule ccontr)
      assume "\<not> ?m < ?k"
      then have ge: "?k \<le> ?m" by simp
      have "?m < length ?vs" using a by (simp add: top_p_weights_eq)
      with ge kl have "(take ?k ?vs @ replicate (length ?vs - ?k) 0) ! ?m = 0"
        by (simp add: nth_append)
      with a ws show False by simp
    qed
  qed
qed

lemma nonneg_le_sum_list:
  "list_all (\<lambda>x. (0::rat) \<le> x) xs \<Longrightarrow> j < length xs \<Longrightarrow> xs ! j \<le> sum_list xs"
proof (induction xs arbitrary: j)
  case Nil
  then show ?case by simp
next
  case (Cons x xs)
  have s: "0 \<le> sum_list xs" using Cons.prems by (intro sum_list_nonneg) (simp add: list_all_iff)
  show ?case
  proof (cases j)
    case 0
    with s show ?thesis by simp
  next
    case (Suc j')
    with Cons have "xs ! j' \<le> sum_list xs" by simp
    with Cons.prems Suc show ?thesis by simp
  qed
qed

lemma weights_nonneg:
  "list_all (\<lambda>x. 0 \<le> x) xs \<Longrightarrow> list_all (\<lambda>x. 0 \<le> x) (weights_from p acc xs)"
  by (induction xs arbitrary: acc) simp_all

text \<open>
  Dividing the weights by a positive number does not change the index drawn, so the draw
  from the masked vector is the draw the normalised vector would give.
\<close>

lemma multinomial_scale:
  assumes d: "0 < d"
  shows "multinomial u (divide ws d) = multinomial u ws"
proof -
  have dr: "draw_from (r / d) (acc / d) i (map (\<lambda>x. x / d) xs) = draw_from r acc i xs"
    for r acc i xs
  proof (induction xs arbitrary: acc i)
    case Nil
    show ?case by simp
  next
    case (Cons x xs)
    have a: "acc / d < r / d \<longleftrightarrow> acc < r" using d by (simp add: divide_strict_right_mono divide_less_cancel)
    have b: "r / d \<le> (acc + x) / d \<longleftrightarrow> r \<le> acc + x"
      using d by (simp add: divide_le_cancel)
    have c: "acc / d + x / d = (acc + x) / d" by (simp add: add_divide_distrib)
    show ?case using Cons.IH [of "acc + x" "Suc i"] by (simp add: a b c)
  qed
  have s: "sum_list (map (\<lambda>x. x / d) ws) = sum_list ws / d"
    by (induction ws) (simp_all add: add_divide_distrib)
  show ?thesis using dr [of "u * sum_list ws" 0 0 ws]
    by (simp add: multinomial_def divide_def s)
qed





text \<open>
  C7. For a row of non-negative probabilities whose largest entry is positive and a
  threshold \<open>p > 0\<close>, the cumulative sum minus the own probability of the largest sorted
  entry is 0, so the mask never zeroes it; the masked vector keeps the largest entry, its
  sum (the divisor of the renormalisation) is strictly positive, and the vector that is
  sampled is never all zero.
\<close>

theorem top_entry_never_zeroed:
  assumes "probs \<noteq> []" and "list_all (\<lambda>x. 0 \<le> x) probs"
    and "0 < Max (set probs)" and "0 < p"
  shows "cumsum (fst (sort_desc probs)) ! 0 - fst (sort_desc probs) ! 0 = 0 \<and>
         \<not> top_p_mask (fst (sort_desc probs)) p ! 0 \<and>
         top_p_weights probs p ! 0 = Max (set probs) \<and>
         0 < sum_list (top_p_weights probs p) \<and>
         top_p_weights probs p \<noteq> replicate (length probs) 0"
proof -
  let ?vs = "fst (sort_desc probs)"
  let ?ws = "top_p_weights probs p"
  have l: "0 < length ?vs" using assms(1) by simp
  have vnn: "list_all (\<lambda>x. 0 \<le> x) ?vs"
    using assms(2) by (simp add: list_all_iff set_fst_sort_desc)
  have c1: "cumsum ?vs ! 0 - ?vs ! 0 = 0" using l by (simp add: cumsum_minus_self)
  have c2: "\<not> top_p_mask ?vs p ! 0" using l c1 assms(4) by (simp add: top_p_mask_nth)
  have w0: "?ws ! 0 = ?vs ! 0"
    using l assms(4) by (simp add: top_p_weights_eq weights_from_nth)
  have c3: "?ws ! 0 = Max (set probs)" using w0 sort_desc_hd [OF assms(1)] by simp
  have wnn: "list_all (\<lambda>x. 0 \<le> x) ?ws"
    unfolding top_p_weights_eq using vnn by (rule weights_nonneg)
  have "?ws ! 0 \<le> sum_list ?ws"
    using wnn by (rule nonneg_le_sum_list) (simp add: top_p_weights_eq assms(1))
  then have c4: "0 < sum_list ?ws" using c3 assms(3) by simp
  have c5: "?ws \<noteq> replicate (length probs) 0"
  proof
    assume "?ws = replicate (length probs) 0"
    then have "?ws ! 0 = 0" using assms(1) by simp
    with c3 assms(3) show False by simp
  qed
  show ?thesis using c1 c2 c3 c4 c5 by blast
qed

theorem top_entry_never_zeroed_witness:
  "[1 / 5, 1 / 2, 3 / 10] \<noteq> ([] :: rat list) \<and>
   list_all (\<lambda>x. 0 \<le> x) [1 / 5, 1 / 2, 3 / 10 :: rat] \<and>
   (0 :: rat) < Max (set [1 / 5, 1 / 2, 3 / 10]) \<and> (0 :: rat) < 1 / 100 \<and>
   cumsum (fst (sort_desc [1 / 5, 1 / 2, 3 / 10])) ! 0 - fst (sort_desc [1 / 5, 1 / 2, 3 / 10]) ! 0 = 0 \<and>
   \<not> top_p_mask (fst (sort_desc [1 / 5, 1 / 2, 3 / 10])) (1 / 100) ! 0 \<and>
   top_p_weights [1 / 5, 1 / 2, 3 / 10] (1 / 100) ! 0 = Max (set [1 / 5, 1 / 2, 3 / 10]) \<and>
   0 < sum_list (top_p_weights [1 / 5, 1 / 2, 3 / 10] (1 / 100)) \<and>
   top_p_weights [1 / 5, 1 / 2, 3 / 10] (1 / 100) \<noteq> replicate (length [1 / 5, 1 / 2, 3 / 10 :: rat]) 0 \<and>
   top_p_weights [1 / 5, 1 / 2, 3 / 10] (1 / 100) = [1 / 2, 0, 0]"
proof -
  have h1: "[1 / 5, 1 / 2, 3 / 10] \<noteq> ([] :: rat list)" by simp
  have h2: "list_all (\<lambda>x. 0 \<le> x) [1 / 5, 1 / 2, 3 / 10 :: rat]" by simp
  have h3: "(0 :: rat) < Max (set [1 / 5, 1 / 2, 3 / 10])" by simp
  have h4: "(0 :: rat) < 1 / 100" by simp
  have v: "top_p_weights [1 / 5, 1 / 2, 3 / 10] (1 / 100) = [1 / 2, 0, 0]" by code_simp
  note t = top_entry_never_zeroed [OF h1 h2 h3 h4]
  show ?thesis using h1 h2 h3 h4 t v by blast
qed

end
